theory Spec2Isabelle
  imports Complex_Main
begin

chapter \<open>lifelib: present values (ifrs17sim) and the CashValue\_ME projection\<close>

text \<open>
  The formulas ("cells") of two modelx spaces are embedded as HOL functions:
  \<^item> \<^verbatim>\<open>ifrs17sim/model/OuterProj/InnerProj/PV/__init__.py\<close>: the present-value cells,
    scalar valued, recursing forward in \<open>t\<close> up to \<open>last_t()\<close>;
  \<^item> \<^verbatim>\<open>savings/CashValue_ME/Projection/__init__.py\<close>: the projection cells, one value per
    model point, recursing backward in \<open>t\<close> down to \<open>t == 0\<close>.

  Python integers are \<open>int\<close>. A float is a value of the type \<open>double\<close> below: a finite
  number, an infinity or NaN. The present-value cells are given for any arithmetic; that
  of Python's floats rounds every result to binary64. An exception is a value \<open>Inl e\<close>
  of the result.
\<close>

section \<open>Python errors\<close>

datatype py_error =
    ValueError string
  | ZeroDivisionError
  | NameError string
  | IndexError
  | UnboundLocalError string

text \<open>Sequencing of two computations that may raise: the first error wins.\<close>

definition and_then :: "py_error + 'a \<Rightarrow> ('a \<Rightarrow> py_error + 'b) \<Rightarrow> py_error + 'b" where
  "and_then m f = (case m of Inl e \<Rightarrow> Inl e | Inr x \<Rightarrow> f x)"

lemma and_then_cong [fundef_cong]:
  "m = m' \<Longrightarrow> (\<And>x. m' = Inr x \<Longrightarrow> f x = f' x) \<Longrightarrow> and_then m f = and_then m' f'"
  by (simp add: and_then_def split: sum.splits)

lemma and_then_Inr [simp]: "and_then (Inr x) f = f x"
  by (simp add: and_then_def)

lemma and_then_Inl [simp]: "and_then (Inl e) f = Inl e"
  by (simp add: and_then_def)

section \<open>Floats\<close>

text \<open>
  A binary64 float: a finite number, one of the two infinities, or NaN. The sign of a
  zero is not kept: no operation of the two spaces tells \<open>-0.0\<close> from \<open>0.0\<close>.
\<close>

datatype double = Fin real | PosInf | NegInf | NaN

subsection \<open>Rounding to the nearest binary64 number\<close>

text \<open>
  The significand of a positive number \<open>m\<close> is scaled into \<open>[2^52, 2^53)\<close>: halved while
  it is too large, doubled while it is too small and the exponent is above that of the
  subnormal numbers, \<open>-1074\<close>.
\<close>

function scale_down :: "real \<Rightarrow> int \<Rightarrow> real \<times> int" where
  "scale_down m e = (if 2 ^ 53 \<le> m then scale_down (m / 2) (e + 1) else (m, e))"
  by pat_completeness auto
termination
proof (relation "measure (\<lambda>(m, e). nat \<lceil>m\<rceil>)")
  show "wf (measure (\<lambda>(m, e). nat \<lceil>m\<rceil>))" by simp
next
  fix m :: real and e :: int
  assume m: "2 ^ 53 \<le> m"
  then have "m / 2 + 1 \<le> m" by simp
  then have "\<lceil>m / 2\<rceil> + 1 \<le> \<lceil>m\<rceil>" by (metis ceiling_add_one ceiling_mono)
  moreover from m have "0 < \<lceil>m\<rceil>" by simp
  ultimately show "((m / 2, e + 1), (m, e)) \<in> measure (\<lambda>(m, e). nat \<lceil>m\<rceil>)" by simp
qed

function scale_up :: "real \<Rightarrow> int \<Rightarrow> real \<times> int" where
  "scale_up m e = (if m < 2 ^ 52 \<and> - 1074 < e then scale_up (m * 2) (e - 1) else (m, e))"
  by pat_completeness auto
termination
  by (relation "measure (\<lambda>(m, e). nat (e + 1074))") auto

declare scale_down.simps [simp del] scale_up.simps [simp del]

text \<open>To the nearest integer, a tie to the even one.\<close>

definition round_half_even :: "real \<Rightarrow> int" where
  "round_half_even m =
     (let f = \<lfloor>m\<rfloor>; d = m - of_int f
      in if d < 1 / 2 then f else if 1 / 2 < d then f + 1 else if even f then f else f + 1)"

definition pow2 :: "int \<Rightarrow> real" where
  "pow2 e = (if 0 \<le> e then 2 ^ nat e else 1 / 2 ^ nat (- e))"

text \<open>
  A positive real number as a binary64 number: the rounded significand times its power
  of two, and infinity when that is \<open>2^1024\<close> or more.
\<close>

definition round_pos :: "real \<Rightarrow> real option" where
  "round_pos x =
     (let (m, e) = scale_down x 0; (m', e') = scale_up m e;
          y = of_int (round_half_even m') * pow2 e'
      in if 2 ^ 1024 \<le> y then None else Some y)"

definition round64 :: "real \<Rightarrow> double" where
  "round64 x =
     (if x = 0 then Fin 0
      else if 0 < x then (case round_pos x of None \<Rightarrow> PosInf | Some y \<Rightarrow> Fin y)
      else (case round_pos (- x) of None \<Rightarrow> NegInf | Some y \<Rightarrow> Fin (- y)))"

subsection \<open>Arithmetic\<close>

text \<open>
  The operations of IEEE 754 on the special values; on two finite numbers the exact
  result is handed to the rounding \<open>rnd\<close>.
\<close>

fun fneg :: "double \<Rightarrow> double" where
  "fneg (Fin x) = Fin (- x)"
| "fneg PosInf = NegInf"
| "fneg NegInf = PosInf"
| "fneg NaN = NaN"

fun fadd :: "(real \<Rightarrow> double) \<Rightarrow> double \<Rightarrow> double \<Rightarrow> double" where
  "fadd rnd (Fin x) (Fin y) = rnd (x + y)"
| "fadd rnd NaN y = NaN"
| "fadd rnd x NaN = NaN"
| "fadd rnd PosInf NegInf = NaN"
| "fadd rnd NegInf PosInf = NaN"
| "fadd rnd PosInf y = PosInf"
| "fadd rnd x PosInf = PosInf"
| "fadd rnd NegInf y = NegInf"
| "fadd rnd x NegInf = NegInf"

definition fsub :: "(real \<Rightarrow> double) \<Rightarrow> double \<Rightarrow> double \<Rightarrow> double" where
  "fsub rnd x y = fadd rnd x (fneg y)"

text \<open>The sign of a number that is not NaN: \<open>-1\<close>, \<open>0\<close> or \<open>1\<close>.\<close>

fun fsgn :: "double \<Rightarrow> int" where
  "fsgn (Fin x) = (if x < 0 then - 1 else if x = 0 then 0 else 1)"
| "fsgn PosInf = 1"
| "fsgn NegInf = - 1"
| "fsgn NaN = 0"

definition inf_of_sign :: "int \<Rightarrow> double" where
  "inf_of_sign s = (if s = 0 then NaN else if 0 < s then PosInf else NegInf)"

fun fmul :: "(real \<Rightarrow> double) \<Rightarrow> double \<Rightarrow> double \<Rightarrow> double" where
  "fmul rnd (Fin x) (Fin y) = rnd (x * y)"
| "fmul rnd NaN y = NaN"
| "fmul rnd x NaN = NaN"
| "fmul rnd x y = inf_of_sign (fsgn x * fsgn y)"

text \<open>
  Python's \<open>a / b\<close> on floats raises when the divisor is zero, whatever the dividend;
  otherwise it is the division of IEEE 754.
\<close>

fun py_div :: "(real \<Rightarrow> double) \<Rightarrow> double \<Rightarrow> double \<Rightarrow> py_error + double" where
  "py_div rnd x (Fin y) =
     (if y = 0 then Inl ZeroDivisionError
      else Inr (case x of Fin a \<Rightarrow> rnd (a / y) | NaN \<Rightarrow> NaN
                | _ \<Rightarrow> inf_of_sign (fsgn x * fsgn (Fin y))))"
| "py_div rnd x NaN = Inr NaN"
| "py_div rnd NaN y = Inr NaN"
| "py_div rnd (Fin x) y = Inr (Fin 0)"
| "py_div rnd x y = Inr NaN"

text \<open>\<open>np.maximum\<close>: NaN if either operand is.\<close>

fun np_maximum :: "double \<Rightarrow> double \<Rightarrow> double" where
  "np_maximum (Fin x) (Fin y) = Fin (max x y)"
| "np_maximum NaN y = NaN"
| "np_maximum x NaN = NaN"
| "np_maximum PosInf y = PosInf"
| "np_maximum x PosInf = PosInf"
| "np_maximum NegInf y = y"
| "np_maximum x NegInf = x"

text \<open>
  The comparisons \<open>x >= 0\<close> and \<open>x < 0\<close> on a float, both false of NaN, and whether a
  float is a finite number.
\<close>

fun ge_zero :: "double \<Rightarrow> bool" where
  "ge_zero (Fin x) = (0 \<le> x)"
| "ge_zero PosInf = True"
| "ge_zero NegInf = False"
| "ge_zero NaN = False"

fun lt_zero :: "double \<Rightarrow> bool" where
  "lt_zero (Fin x) = (x < 0)"
| "lt_zero PosInf = False"
| "lt_zero NegInf = True"
| "lt_zero NaN = False"

fun is_finite :: "double \<Rightarrow> bool" where
  "is_finite (Fin x) = True"
| "is_finite PosInf = False"
| "is_finite NegInf = False"
| "is_finite NaN = False"

section \<open>The present-value space \<open>PV[t_rate]\<close>\<close>

text \<open>
  The space's \<open>_formula\<close> binds twelve names of the parent space \<open>InnerProj\<close> (and the
  discount rates of \<open>t_rate\<close>); their code is outside this space, so they are the fields
  of a record. \<open>PV_BenefitMat\<close> reads a name \<open>BenefitMat\<close> that \<open>_formula\<close> does not bind:
  it is an optional field, and reading it unbound raises \<open>NameError\<close>.

  The cells compute with the numbers the parent space hands them; Python's \<open>+\<close>, \<open>-\<close>,
  \<open>*\<close> and \<open>/\<close> are those of these numbers. The arithmetic is therefore a parameter of
  the cells: the literals \<open>0\<close> and \<open>1\<close>, the negation and the four operations, of which
  the division may raise.
\<close>

record 'a arith =
  a_zero :: 'a
  a_one :: 'a
  a_neg :: "'a \<Rightarrow> 'a"
  a_add :: "'a \<Rightarrow> 'a \<Rightarrow> 'a"
  a_sub :: "'a \<Rightarrow> 'a \<Rightarrow> 'a"
  a_mul :: "'a \<Rightarrow> 'a \<Rightarrow> 'a"
  a_div :: "'a \<Rightarrow> 'a \<Rightarrow> py_error + 'a"

text \<open>Python floats: every result is rounded to the nearest binary64 number.\<close>

definition binary64 :: "double arith" where
  "binary64 =
     \<lparr> a_zero = Fin 0, a_one = Fin 1, a_neg = fneg, a_add = fadd round64,
       a_sub = fsub round64, a_mul = fmul round64, a_div = py_div round64 \<rparr>"

text \<open>
  The arithmetic of the real numbers, in which nothing is rounded; its division raises
  on a zero divisor as Python's does.
\<close>

definition exact :: "real arith" where
  "exact =
     \<lparr> a_zero = 0, a_one = 1, a_neg = uminus, a_add = (+), a_sub = (-), a_mul = (*),
       a_div = (\<lambda>a b. if b = 0 then Inl ZeroDivisionError else Inr (a / b)) \<rparr>"

record 'a pv_refs =
  last_t :: int
  InsurIF_Beg1 :: "int \<Rightarrow> 'a"
  InsurIF_End :: "int \<Rightarrow> 'a"
  PremIncome :: "int \<Rightarrow> 'a"
  BenefitSurr :: "int \<Rightarrow> 'a"
  BenefitDeath :: "int \<Rightarrow> 'a"
  BenefitTotal :: "int \<Rightarrow> 'a"
  ExpsCommTotal :: "int \<Rightarrow> 'a"
  ExpsAcq :: "int \<Rightarrow> 'a"
  ExpsMaint :: "int \<Rightarrow> 'a"
  ExpsTotal :: "int \<Rightarrow> 'a"
  DiscRate :: "int \<Rightarrow> 'a"
  BenefitMat :: "(int \<Rightarrow> 'a) option"

definition lookup_BenefitMat :: "'a pv_refs \<Rightarrow> int \<Rightarrow> py_error + 'a" where
  "lookup_BenefitMat r t =
     (case BenefitMat r of None \<Rightarrow> Inl (NameError ''BenefitMat'') | Some f \<Rightarrow> Inr (f t))"

text \<open>\<open>1 + DiscRate(t)\<close>, the divisor of every recursion.\<close>

definition disc_factor :: "'a arith \<Rightarrow> 'a pv_refs \<Rightarrow> int \<Rightarrow> 'a" where
  "disc_factor ar r t = a_add ar (a_one ar) (DiscRate r t)"

function PV_BenefitDeath :: "'a arith \<Rightarrow> 'a pv_refs \<Rightarrow> int \<Rightarrow> py_error + 'a" where
  "PV_BenefitDeath ar r t =
     (if t > last_t r then Inr (a_zero ar)
      else and_then (PV_BenefitDeath ar r (t + 1)) (\<lambda>pv.
           a_div ar (a_add ar (a_neg ar (BenefitDeath r t)) pv) (disc_factor ar r t)))"
  by pat_completeness auto
termination
  by (relation "measure (\<lambda>(ar, r, t). nat (last_t r + 1 - t))") auto

function PV_BenefitMat :: "'a arith \<Rightarrow> 'a pv_refs \<Rightarrow> int \<Rightarrow> py_error + 'a" where
  "PV_BenefitMat ar r t =
     (if t > last_t r then Inr (a_zero ar)
      else and_then (lookup_BenefitMat r t) (\<lambda>b.
           and_then (PV_BenefitMat ar r (t + 1)) (\<lambda>pv.
           a_div ar (a_add ar (a_neg ar b) pv) (disc_factor ar r t))))"
  by pat_completeness auto
termination
  by (relation "measure (\<lambda>(ar, r, t). nat (last_t r + 1 - t))") auto

function PV_BenefitSurr :: "'a arith \<Rightarrow> 'a pv_refs \<Rightarrow> int \<Rightarrow> py_error + 'a" where
  "PV_BenefitSurr ar r t =
     (if t > last_t r then Inr (a_zero ar)
      else and_then (PV_BenefitSurr ar r (t + 1)) (\<lambda>pv.
           a_div ar (a_add ar (a_neg ar (BenefitSurr r t)) pv) (disc_factor ar r t)))"
  by pat_completeness auto
termination
  by (relation "measure (\<lambda>(ar, r, t). nat (last_t r + 1 - t))") auto

function PV_BenefitTotal :: "'a arith \<Rightarrow> 'a pv_refs \<Rightarrow> int \<Rightarrow> py_error + 'a" where
  "PV_BenefitTotal ar r t =
     (if t > last_t r then Inr (a_zero ar)
      else and_then (PV_BenefitTotal ar r (t + 1)) (\<lambda>pv.
           a_div ar (a_add ar (a_neg ar (BenefitTotal r t)) pv) (disc_factor ar r t)))"
  by pat_completeness auto
termination
  by (relation "measure (\<lambda>(ar, r, t). nat (last_t r + 1 - t))") auto

function PV_ExpsAcq :: "'a arith \<Rightarrow> 'a pv_refs \<Rightarrow> int \<Rightarrow> py_error + 'a" where
  "PV_ExpsAcq ar r t =
     (if t > last_t r then Inr (a_zero ar)
      else and_then (PV_ExpsAcq ar r (t + 1)) (\<lambda>pv.
           and_then (a_div ar pv (disc_factor ar r t)) (\<lambda>q.
           Inr (a_add ar (a_neg ar (ExpsAcq r t)) q))))"
  by pat_completeness auto
termination
  by (relation "measure (\<lambda>(ar, r, t). nat (last_t r + 1 - t))") auto

function PV_ExpsCommTotal :: "'a arith \<Rightarrow> 'a pv_refs \<Rightarrow> int \<Rightarrow> py_error + 'a" where
  "PV_ExpsCommTotal ar r t =
     (if t > last_t r then Inr (a_zero ar)
      else and_then (PV_ExpsCommTotal ar r (t + 1)) (\<lambda>pv.
           and_then (a_div ar pv (disc_factor ar r t)) (\<lambda>q.
           Inr (a_add ar (a_neg ar (ExpsCommTotal r t)) q))))"
  by pat_completeness auto
termination
  by (relation "measure (\<lambda>(ar, r, t). nat (last_t r + 1 - t))") auto

function PV_ExpsMaint :: "'a arith \<Rightarrow> 'a pv_refs \<Rightarrow> int \<Rightarrow> py_error + 'a" where
  "PV_ExpsMaint ar r t =
     (if t > last_t r then Inr (a_zero ar)
      else and_then (PV_ExpsMaint ar r (t + 1)) (\<lambda>pv.
           and_then (a_div ar pv (disc_factor ar r t)) (\<lambda>q.
           Inr (a_add ar (a_neg ar (ExpsMaint r t)) q))))"
  by pat_completeness auto
termination
  by (relation "measure (\<lambda>(ar, r, t). nat (last_t r + 1 - t))") auto

function PV_ExpsTotal :: "'a arith \<Rightarrow> 'a pv_refs \<Rightarrow> int \<Rightarrow> py_error + 'a" where
  "PV_ExpsTotal ar r t =
     (if t > last_t r then Inr (a_zero ar)
      else and_then (PV_ExpsTotal ar r (t + 1)) (\<lambda>pv.
           and_then (a_div ar pv (disc_factor ar r t)) (\<lambda>q.
           Inr (a_add ar (a_neg ar (ExpsTotal r t)) q))))"
  by pat_completeness auto
termination
  by (relation "measure (\<lambda>(ar, r, t). nat (last_t r + 1 - t))") auto

function PV_PremIncome :: "'a arith \<Rightarrow> 'a pv_refs \<Rightarrow> int \<Rightarrow> py_error + 'a" where
  "PV_PremIncome ar r t =
     (if t > last_t r then Inr (a_zero ar)
      else and_then (PV_PremIncome ar r (t + 1)) (\<lambda>pv.
           and_then (a_div ar pv (disc_factor ar r t)) (\<lambda>q.
           Inr (a_add ar (PremIncome r t) q))))"
  by pat_completeness auto
termination
  by (relation "measure (\<lambda>(ar, r, t). nat (last_t r + 1 - t))") auto

function PV_SumInsurIF :: "'a arith \<Rightarrow> 'a pv_refs \<Rightarrow> int \<Rightarrow> py_error + 'a" where
  "PV_SumInsurIF ar r t =
     (if t > last_t r then Inr (a_zero ar)
      else and_then (PV_SumInsurIF ar r (t + 1)) (\<lambda>pv.
           and_then (a_div ar pv (disc_factor ar r t)) (\<lambda>q.
           Inr (a_add ar (InsurIF_Beg1 r t) q))))"
  by pat_completeness auto
termination
  by (relation "measure (\<lambda>(ar, r, t). nat (last_t r + 1 - t))") auto

definition PV_NetCashflow :: "'a arith \<Rightarrow> 'a pv_refs \<Rightarrow> int \<Rightarrow> py_error + 'a" where
  "PV_NetCashflow ar r t =
     and_then (PV_PremIncome ar r t) (\<lambda>p.
     and_then (PV_ExpsTotal ar r t) (\<lambda>e.
     and_then (PV_BenefitTotal ar r t) (\<lambda>b.
     Inr (a_add ar (a_add ar p e) b))))"

definition PV_NetCashflowForCheck :: "'a arith \<Rightarrow> 'a pv_refs \<Rightarrow> int \<Rightarrow> py_error + 'a" where
  "PV_NetCashflowForCheck ar r t =
     (if t > last_t r then Inr (a_zero ar)
      else and_then (a_div ar (BenefitTotal r t) (disc_factor ar r t)) (\<lambda>b.
           and_then (PV_NetCashflow ar r (t + 1)) (\<lambda>pv.
           and_then (a_div ar pv (disc_factor ar r t)) (\<lambda>q.
           Inr (a_add ar (a_sub ar (a_sub ar (PremIncome r t) (ExpsTotal r t)) b) q)))))"

definition PV_Check :: "'a arith \<Rightarrow> 'a pv_refs \<Rightarrow> int \<Rightarrow> py_error + 'a" where
  "PV_Check ar r t =
     and_then (PV_NetCashflow ar r t) (\<lambda>a.
     and_then (PV_NetCashflowForCheck ar r t) (\<lambda>b.
     Inr (a_sub ar a b)))"

definition InterestNetCF :: "'a arith \<Rightarrow> 'a pv_refs \<Rightarrow> int \<Rightarrow> py_error + 'a" where
  "InterestNetCF ar r t =
     (if t > last_t r then Inr (a_zero ar)
      else and_then (PV_NetCashflow ar r t) (\<lambda>pv.
           Inr (a_mul ar (a_add ar (a_sub ar pv (PremIncome r t)) (ExpsTotal r t))
                  (DiscRate r t))))"

text \<open>
  A run of the space used by the closed examples: three periods at 25 per cent. The
  numbers of the parent space are given by \<open>num\<close>, from the fractions written here.
\<close>

definition pv_example :: "(real \<Rightarrow> 'a) \<Rightarrow> 'a pv_refs" where
  "pv_example num =
     \<lparr> last_t = 2,
       InsurIF_Beg1 = (\<lambda>t. num 1000), InsurIF_End = (\<lambda>t. num 1000),
       PremIncome = (\<lambda>t. num 100), BenefitSurr = (\<lambda>t. num 10), BenefitDeath = (\<lambda>t. num 30),
       BenefitTotal = (\<lambda>t. num 40), ExpsCommTotal = (\<lambda>t. num 5), ExpsAcq = (\<lambda>t. num 0),
       ExpsMaint = (\<lambda>t. num 15), ExpsTotal = (\<lambda>t. num 20),
       DiscRate = (\<lambda>t. num (1 / 4)), BenefitMat = None \<rparr>"

section \<open>Properties of the present-value cells\<close>

lemmas PV_simps =
  PV_BenefitDeath.simps PV_BenefitMat.simps PV_BenefitSurr.simps PV_BenefitTotal.simps
  PV_ExpsAcq.simps PV_ExpsCommTotal.simps PV_ExpsMaint.simps PV_ExpsTotal.simps
  PV_PremIncome.simps PV_SumInsurIF.simps

declare PV_simps [simp del]

text \<open>The facts that evaluate a rounding at a given number.\<close>

lemmas round64_eval =
  round64_def round_pos_def scale_down.simps scale_up.simps round_half_even_def pow2_def

subsection \<open>Beyond \<open>last_t()\<close>\<close>

text \<open>
  For each recursive cell the function package derives the call relation of the
  definition: \<open>PV_PremIncome_rel (ar', r', t') (ar, r, t)\<close> holds exactly when evaluating
  \<open>PV_PremIncome\<close> at \<open>(r, t)\<close> requests \<open>PV_PremIncome\<close> at \<open>(r', t')\<close>.
\<close>

text \<open>
  Claim C6. For every \<open>t > last_t()\<close> each guarded present-value cell returns \<open>0\<close>, and
  the forward-recursive ones do so without requesting themselves again: the bound on \<open>t\<close>
  is the cell's own guard. This holds in every arithmetic.
\<close>

theorem PV_zero_beyond_last_t:
  assumes "t > last_t r"
  shows "PV_PremIncome ar r t = Inr (a_zero ar) \<and> (\<forall>y. \<not> PV_PremIncome_rel y (ar, r, t))
       \<and> PV_BenefitTotal ar r t = Inr (a_zero ar) \<and> (\<forall>y. \<not> PV_BenefitTotal_rel y (ar, r, t))
       \<and> PV_ExpsTotal ar r t = Inr (a_zero ar) \<and> (\<forall>y. \<not> PV_ExpsTotal_rel y (ar, r, t))
       \<and> PV_BenefitDeath ar r t = Inr (a_zero ar) \<and> (\<forall>y. \<not> PV_BenefitDeath_rel y (ar, r, t))
       \<and> PV_BenefitMat ar r t = Inr (a_zero ar) \<and> (\<forall>y. \<not> PV_BenefitMat_rel y (ar, r, t))
       \<and> PV_BenefitSurr ar r t = Inr (a_zero ar) \<and> (\<forall>y. \<not> PV_BenefitSurr_rel y (ar, r, t))
       \<and> PV_ExpsAcq ar r t = Inr (a_zero ar) \<and> (\<forall>y. \<not> PV_ExpsAcq_rel y (ar, r, t))
       \<and> PV_ExpsCommTotal ar r t = Inr (a_zero ar)
       \<and> (\<forall>y. \<not> PV_ExpsCommTotal_rel y (ar, r, t))
       \<and> PV_ExpsMaint ar r t = Inr (a_zero ar) \<and> (\<forall>y. \<not> PV_ExpsMaint_rel y (ar, r, t))
       \<and> PV_SumInsurIF ar r t = Inr (a_zero ar) \<and> (\<forall>y. \<not> PV_SumInsurIF_rel y (ar, r, t))
       \<and> PV_NetCashflowForCheck ar r t = Inr (a_zero ar)"
proof -
  have vals: "PV_PremIncome ar r t = Inr (a_zero ar)" "PV_BenefitTotal ar r t = Inr (a_zero ar)"
    "PV_ExpsTotal ar r t = Inr (a_zero ar)" "PV_BenefitDeath ar r t = Inr (a_zero ar)"
    "PV_BenefitMat ar r t = Inr (a_zero ar)" "PV_BenefitSurr ar r t = Inr (a_zero ar)"
    "PV_ExpsAcq ar r t = Inr (a_zero ar)" "PV_ExpsCommTotal ar r t = Inr (a_zero ar)"
    "PV_ExpsMaint ar r t = Inr (a_zero ar)" "PV_SumInsurIF ar r t = Inr (a_zero ar)"
    using assms by (simp_all add: PV_simps)
  have chk: "PV_NetCashflowForCheck ar r t = Inr (a_zero ar)"
    using assms by (simp add: PV_NetCashflowForCheck_def)
  have r1: "\<not> PV_PremIncome_rel y (ar, r, t)" for y
    using assms by (auto elim: PV_PremIncome_rel.cases)
  have r2: "\<not> PV_BenefitTotal_rel y (ar, r, t)" for y
    using assms by (auto elim: PV_BenefitTotal_rel.cases)
  have r3: "\<not> PV_ExpsTotal_rel y (ar, r, t)" for y
    using assms by (auto elim: PV_ExpsTotal_rel.cases)
  have r4: "\<not> PV_BenefitDeath_rel y (ar, r, t)" for y
    using assms by (auto elim: PV_BenefitDeath_rel.cases)
  have r5: "\<not> PV_BenefitMat_rel y (ar, r, t)" for y
    using assms by (auto elim: PV_BenefitMat_rel.cases)
  have r6: "\<not> PV_BenefitSurr_rel y (ar, r, t)" for y
    using assms by (auto elim: PV_BenefitSurr_rel.cases)
  have r7: "\<not> PV_ExpsAcq_rel y (ar, r, t)" for y
    using assms by (auto elim: PV_ExpsAcq_rel.cases)
  have r8: "\<not> PV_ExpsCommTotal_rel y (ar, r, t)" for y
    using assms by (auto elim: PV_ExpsCommTotal_rel.cases)
  have r9: "\<not> PV_ExpsMaint_rel y (ar, r, t)" for y
    using assms by (auto elim: PV_ExpsMaint_rel.cases)
  have r10: "\<not> PV_SumInsurIF_rel y (ar, r, t)" for y
    using assms by (auto elim: PV_SumInsurIF_rel.cases)
  show ?thesis
    using vals chk r1 r2 r3 r4 r5 r6 r7 r8 r9 r10 by blast
qed

text \<open>The example in Python's floats, one period after the last.\<close>

theorem PV_zero_beyond_last_t_witness:
  "PV_PremIncome binary64 (pv_example Fin) 3 = Inr (Fin 0)
   \<and> (\<forall>y. \<not> PV_PremIncome_rel y (binary64, pv_example Fin, 3))
   \<and> PV_BenefitTotal binary64 (pv_example Fin) 3 = Inr (Fin 0)
   \<and> PV_ExpsTotal binary64 (pv_example Fin) 3 = Inr (Fin 0)
   \<and> PV_NetCashflowForCheck binary64 (pv_example Fin) 3 = Inr (Fin 0)"
proof -
  have h: "3 > last_t (pv_example Fin)" by (simp add: pv_example_def)
  have z: "a_zero binary64 = Fin 0" by (simp add: binary64_def)
  from PV_zero_beyond_last_t[OF h, of binary64] show ?thesis unfolding z by blast
qed

text \<open>
  Below the guard the recursion is live: at \<open>t \<le> last_t()\<close> the cell requests itself at
  \<open>t + 1\<close>.
\<close>

lemma PV_PremIncome_requests_next:
  "t \<le> last_t r \<Longrightarrow> PV_PremIncome_rel (ar, r, t + 1) (ar, r, t)"
  by (rule PV_PremIncome_rel.intros) simp

subsection \<open>The aggregated and the step-by-step recursion\<close>

text \<open>In exact arithmetic a recursion returns when no divisor \<open>1 + DiscRate(s)\<close> is zero.\<close>

lemma PV_PremIncome_returns:
  "ar = exact \<Longrightarrow> (\<And>s. t \<le> s \<Longrightarrow> s \<le> last_t r \<Longrightarrow> DiscRate r s \<noteq> - 1) \<Longrightarrow>
   \<exists>v. PV_PremIncome ar r t = Inr v"
proof (induction ar r t rule: PV_PremIncome.induct)
  case (1 ar r t)
  show ?case
  proof (cases "t > last_t r")
    case True
    then show ?thesis by (simp add: PV_PremIncome.simps)
  next
    case False
    then have d: "1 + DiscRate r t \<noteq> 0" using "1.prems"(2)[of t] by auto
    from False "1.IH" "1.prems" obtain v where "PV_PremIncome ar r (t + 1) = Inr v" by force
    with False d "1.prems"(1) show ?thesis
      by (subst PV_PremIncome.simps) (simp add: exact_def disc_factor_def)
  qed
qed

lemma PV_ExpsTotal_returns:
  "ar = exact \<Longrightarrow> (\<And>s. t \<le> s \<Longrightarrow> s \<le> last_t r \<Longrightarrow> DiscRate r s \<noteq> - 1) \<Longrightarrow>
   \<exists>v. PV_ExpsTotal ar r t = Inr v"
proof (induction ar r t rule: PV_ExpsTotal.induct)
  case (1 ar r t)
  show ?case
  proof (cases "t > last_t r")
    case True
    then show ?thesis by (simp add: PV_ExpsTotal.simps)
  next
    case False
    then have d: "1 + DiscRate r t \<noteq> 0" using "1.prems"(2)[of t] by auto
    from False "1.IH" "1.prems" obtain v where "PV_ExpsTotal ar r (t + 1) = Inr v" by force
    with False d "1.prems"(1) show ?thesis
      by (subst PV_ExpsTotal.simps) (simp add: exact_def disc_factor_def)
  qed
qed

lemma PV_BenefitTotal_returns:
  "ar = exact \<Longrightarrow> (\<And>s. t \<le> s \<Longrightarrow> s \<le> last_t r \<Longrightarrow> DiscRate r s \<noteq> - 1) \<Longrightarrow>
   \<exists>v. PV_BenefitTotal ar r t = Inr v"
proof (induction ar r t rule: PV_BenefitTotal.induct)
  case (1 ar r t)
  show ?case
  proof (cases "t > last_t r")
    case True
    then show ?thesis by (simp add: PV_BenefitTotal.simps)
  next
    case False
    then have d: "1 + DiscRate r t \<noteq> 0" using "1.prems"(2)[of t] by auto
    from False "1.IH" "1.prems" obtain v where "PV_BenefitTotal ar r (t + 1) = Inr v" by force
    with False d "1.prems"(1) show ?thesis
      by (subst PV_BenefitTotal.simps) (simp add: exact_def disc_factor_def)
  qed
qed

text \<open>
  In exact arithmetic the sum of the three recursions satisfies the recurrence of the
  check cell.
\<close>

lemma PV_Check_exact:
  assumes disc: "\<forall>s. t \<le> s \<and> s \<le> last_t r \<longrightarrow> DiscRate r s \<noteq> - 1"
  shows "(\<exists>v. PV_NetCashflow exact r t = Inr v \<and> PV_NetCashflowForCheck exact r t = Inr v)
         \<and> PV_Check exact r t = Inr 0"
proof (cases "t > last_t r")
  case True
  then show ?thesis
    by (simp add: PV_NetCashflow_def PV_NetCashflowForCheck_def PV_Check_def
        PV_PremIncome.simps PV_ExpsTotal.simps PV_BenefitTotal.simps exact_def)
next
  case False
  have later: "\<And>s. t + 1 \<le> s \<Longrightarrow> s \<le> last_t r \<Longrightarrow> DiscRate r s \<noteq> - 1"
    using disc by simp
  obtain p where p: "PV_PremIncome exact r (t + 1) = Inr p"
    using PV_PremIncome_returns[of exact "t + 1" r] later by blast
  obtain e where e: "PV_ExpsTotal exact r (t + 1) = Inr e"
    using PV_ExpsTotal_returns[of exact "t + 1" r] later by blast
  obtain b where b: "PV_BenefitTotal exact r (t + 1) = Inr b"
    using PV_BenefitTotal_returns[of exact "t + 1" r] later by blast
  have d: "1 + DiscRate r t \<noteq> 0" using disc False by (auto dest: spec[of _ t])
  have P: "PV_PremIncome exact r t = Inr (PremIncome r t + p / (1 + DiscRate r t))"
    using False d p by (subst PV_PremIncome.simps) (simp add: exact_def disc_factor_def)
  have E: "PV_ExpsTotal exact r t = Inr (- ExpsTotal r t + e / (1 + DiscRate r t))"
    using False d e by (subst PV_ExpsTotal.simps) (simp add: exact_def disc_factor_def)
  have B: "PV_BenefitTotal exact r t = Inr ((- BenefitTotal r t + b) / (1 + DiscRate r t))"
    using False d b by (subst PV_BenefitTotal.simps) (simp add: exact_def disc_factor_def)
  have N: "PV_NetCashflow exact r (t + 1) = Inr (p + e + b)"
    unfolding PV_NetCashflow_def p e b by (simp add: exact_def)
  have F: "PV_NetCashflowForCheck exact r t =
      Inr (PremIncome r t - ExpsTotal r t - BenefitTotal r t / (1 + DiscRate r t)
           + (p + e + b) / (1 + DiscRate r t))"
    unfolding PV_NetCashflowForCheck_def N using False d
    by (simp add: exact_def disc_factor_def)
  define x where "x = PremIncome r t + p / (1 + DiscRate r t)
        + (- ExpsTotal r t + e / (1 + DiscRate r t))
        + (- BenefitTotal r t + b) / (1 + DiscRate r t)"
  define y where "y = PremIncome r t - ExpsTotal r t - BenefitTotal r t / (1 + DiscRate r t)
           + (p + e + b) / (1 + DiscRate r t)"
  have xy: "x = y"
    unfolding x_def y_def by (simp add: add_divide_distrib diff_divide_distrib)
  have N0: "PV_NetCashflow exact r t = Inr x"
    unfolding x_def PV_NetCashflow_def P E B by (simp add: exact_def)
  have F0: "PV_NetCashflowForCheck exact r t = Inr y"
    unfolding y_def by (rule F)
  show ?thesis
    unfolding PV_Check_def N0 F0 xy by (simp add: exact_def)
qed

text \<open>In Python's floats, beyond \<open>last_t()\<close>: \<open>0 + 0 + 0\<close> and \<open>0 - 0\<close> are \<open>0\<close>.\<close>

lemma round64_0: "round64 0 = Fin 0"
  by (simp add: round64_def)

lemma PV_Check_binary64_beyond:
  assumes "last_t r < t"
  shows "PV_NetCashflow binary64 r t = Inr (Fin 0)"
    and "PV_NetCashflowForCheck binary64 r t = Inr (Fin 0)"
    and "PV_Check binary64 r t = Inr (Fin 0)"
proof -
  show n: "PV_NetCashflow binary64 r t = Inr (Fin 0)"
    using assms
    by (simp add: PV_NetCashflow_def PV_PremIncome.simps PV_ExpsTotal.simps
        PV_BenefitTotal.simps binary64_def round64_0)
  show f: "PV_NetCashflowForCheck binary64 r t = Inr (Fin 0)"
    using assms by (simp add: PV_NetCashflowForCheck_def binary64_def)
  show "PV_Check binary64 r t = Inr (Fin 0)"
    unfolding PV_Check_def n f by (simp add: binary64_def fsub_def round64_0)
qed

text \<open>
  Claim C8, as amended. In Python's floats \<open>PV_NetCashflow(t)\<close> and
  \<open>PV_NetCashflowForCheck(t)\<close> are both \<open>0\<close>, and so is \<open>PV_Check(t)\<close>, for every
  \<open>t > last_t()\<close>. In exact arithmetic, if no discount rate from \<open>t\<close> to \<open>last_t()\<close> is
  \<open>-1\<close>, the two cells return the same number and \<open>PV_Check(t)\<close> returns \<open>0\<close> at every \<open>t\<close>:
  the sum of the recursions of premiums, expenses and benefits satisfies the recurrence
  of the check cell, and all are \<open>0\<close> beyond \<open>last_t()\<close>.
\<close>

theorem PV_Check_is_zero:
  "(last_t r < t \<longrightarrow>
      PV_NetCashflow binary64 r t = Inr (Fin 0)
      \<and> PV_NetCashflowForCheck binary64 r t = Inr (Fin 0)
      \<and> PV_Check binary64 r t = Inr (Fin 0))
   \<and> ((\<forall>s. t' \<le> s \<and> s \<le> last_t r' \<longrightarrow> DiscRate r' s \<noteq> - 1) \<longrightarrow>
      (\<exists>v. PV_NetCashflow exact r' t' = Inr v \<and> PV_NetCashflowForCheck exact r' t' = Inr v)
      \<and> PV_Check exact r' t' = Inr 0)"
  using PV_Check_binary64_beyond[of r t] PV_Check_exact[of t' r'] by blast

text \<open>
  The three-period example: in floats all is \<open>0\<close> at \<open>t = 3\<close>; in exact arithmetic both
  cells are \<open>117.12\<close> at \<open>t = 0\<close>.
\<close>

theorem PV_Check_is_zero_witness:
  "PV_NetCashflow binary64 (pv_example Fin) 3 = Inr (Fin 0)
   \<and> PV_NetCashflowForCheck binary64 (pv_example Fin) 3 = Inr (Fin 0)
   \<and> PV_Check binary64 (pv_example Fin) 3 = Inr (Fin 0)
   \<and> PV_NetCashflow exact (pv_example (\<lambda>x. x)) 0 = Inr (2928 / 25)
   \<and> PV_NetCashflowForCheck exact (pv_example (\<lambda>x. x)) 0 = Inr (2928 / 25)
   \<and> PV_Check exact (pv_example (\<lambda>x. x)) 0 = Inr 0"
proof -
  have g: "last_t (pv_example Fin) < 3" by (simp add: pv_example_def)
  have h: "\<forall>s. 0 \<le> s \<and> s \<le> last_t (pv_example (\<lambda>x. x)) \<longrightarrow>
             DiscRate (pv_example (\<lambda>x. x)) s \<noteq> - 1"
    by (simp add: pv_example_def)
  have v: "PV_NetCashflow exact (pv_example (\<lambda>x. x)) 0 = Inr (2928 / 25)"
    by (simp add: PV_NetCashflow_def PV_PremIncome.simps PV_ExpsTotal.simps
        PV_BenefitTotal.simps pv_example_def exact_def disc_factor_def)
  from PV_Check_is_zero[of "pv_example Fin" 3 0 "pv_example (\<lambda>x. x)"] g h v
  show ?thesis by auto
qed

text \<open>
  In Python's floats the claim as stated fails at \<open>t = 0\<close> of the example, where no
  discount rate is \<open>-1\<close>: the three recursions give \<open>244.0\<close>, \<open>-48.8\<close> and \<open>-78.08\<close>, their
  sum is \<open>117.11999999999999\<close>, the check cell is \<open>117.12\<close> and \<open>PV_Check(0)\<close> is
  \<open>-2^-46\<close>, about \<open>-1.42e-14\<close>.
\<close>

lemma pv_example_PremIncome:
  "PV_PremIncome binary64 (pv_example Fin) 0 = Inr (Fin 244)"
  by (simp add: PV_PremIncome.simps pv_example_def binary64_def disc_factor_def round64_eval)

lemma pv_example_ExpsTotal:
  "PV_ExpsTotal binary64 (pv_example Fin) 0 = Inr (Fin (- 3433994715870003 / 70368744177664))"
  by (simp add: PV_ExpsTotal.simps pv_example_def binary64_def disc_factor_def round64_eval)

lemma pv_example_BenefitTotal:
  "PV_BenefitTotal binary64 (pv_example Fin) 0 =
   Inr (Fin (- 5494391545392005 / 70368744177664))"
  by (simp add: PV_BenefitTotal.simps pv_example_def binary64_def disc_factor_def round64_eval)

lemma pv_example_NetCashflow:
  "PV_NetCashflow binary64 (pv_example Fin) 0 = Inr (Fin (8241587318088007 / 70368744177664))"
  unfolding PV_NetCashflow_def pv_example_PremIncome pv_example_ExpsTotal
    pv_example_BenefitTotal
  by (simp add: binary64_def round64_eval)

lemma pv_example_NetCashflow_1:
  "PV_NetCashflow binary64 (pv_example Fin) 1 = Inr (Fin (3039929748475085 / 35184372088832))"
  by (simp add: PV_NetCashflow_def PV_PremIncome.simps PV_ExpsTotal.simps
      PV_BenefitTotal.simps pv_example_def binary64_def disc_factor_def round64_eval)

lemma pv_example_NetCashflowForCheck:
  "PV_NetCashflowForCheck binary64 (pv_example Fin) 0 =
   Inr (Fin (1030198414761001 / 8796093022208))"
proof -
  have "PV_NetCashflow binary64 (pv_example Fin) (0 + 1) =
      Inr (Fin (3039929748475085 / 35184372088832))"
    using pv_example_NetCashflow_1 by simp
  then show ?thesis
    unfolding PV_NetCashflowForCheck_def
    by (simp add: pv_example_def binary64_def disc_factor_def fsub_def round64_eval)
qed

theorem PV_Check_is_zero_counterexample:
  "PV_NetCashflow binary64 (pv_example Fin) 0 = Inr (Fin (8241587318088007 / 70368744177664))
   \<and> PV_NetCashflowForCheck binary64 (pv_example Fin) 0 =
       Inr (Fin (1030198414761001 / 8796093022208))
   \<and> PV_Check binary64 (pv_example Fin) 0 = Inr (Fin (- 1 / 70368744177664))
   \<and> PV_Check binary64 (pv_example Fin) 0 \<noteq> Inr (Fin 0)"
proof -
  have "PV_Check binary64 (pv_example Fin) 0 = Inr (Fin (- 1 / 70368744177664))"
    unfolding PV_Check_def pv_example_NetCashflow pv_example_NetCashflowForCheck
    by (simp add: binary64_def fsub_def round64_eval)
  with pv_example_NetCashflow pv_example_NetCashflowForCheck show ?thesis by simp
qed

section \<open>The projection space \<open>CashValue_ME.Projection\<close>\<close>

text \<open>
  Every cell of this space returns one value per model point: a pandas Series aligned to
  the index of \<open>model_point()\<close>, here a list aligned to the list of model points.
  Arithmetic between two such lists is elementwise.

  The floats of this space are \<open>double\<close>s with the special values of IEEE 754, so a NaN
  or an infinity of a table, or one that an operation makes, goes through the cells as
  in numpy. On finite numbers the arithmetic of this space is exact (the rounding is
  \<open>Fin\<close>): the rounding of each result to 53 bits is left out here, numpy's \<open>exp\<close> and
  \<open>**\<close> not being fixed to the last bit. No statement below is about the last bits of
  a number.

  The cells recurse backward in \<open>t\<close> and stop only at \<open>t == 0\<close>, so a call may never
  return. A cell that can reach such a recursion takes a bound on the depth of the
  recursive calls as its first argument and returns \<open>None\<close> when the bound is reached;
  otherwise it returns \<open>Some (Inr v)\<close> for a value and \<open>Some (Inl e)\<close> for an exception.
  A call that returns does so at every large enough bound; a call that never returns is
  \<open>None\<close> at every bound.
\<close>

subsection \<open>Results of cells\<close>

type_synonym 'a cell = "(py_error + 'a) option"

definition ret :: "'a \<Rightarrow> 'a cell" where
  "ret x = Some (Inr x)"

definition raise :: "py_error \<Rightarrow> 'a cell" where
  "raise e = Some (Inl e)"

definition bind_cell :: "'a cell \<Rightarrow> ('a \<Rightarrow> 'b cell) \<Rightarrow> 'b cell" where
  "bind_cell m f = (case m of None \<Rightarrow> None | Some (Inl e) \<Rightarrow> Some (Inl e) | Some (Inr x) \<Rightarrow> f x)"

definition map_cell :: "('a \<Rightarrow> 'b) \<Rightarrow> 'a cell \<Rightarrow> 'b cell" where
  "map_cell g m = bind_cell m (\<lambda>x. ret (g x))"

text \<open>A binary operator: Python evaluates the left operand, then the right one.\<close>

definition lift2 :: "('a \<Rightarrow> 'b \<Rightarrow> 'c) \<Rightarrow> 'a cell \<Rightarrow> 'b cell \<Rightarrow> 'c cell" where
  "lift2 g a b = bind_cell a (\<lambda>x. bind_cell b (\<lambda>y. ret (g x y)))"

subsection \<open>Series and arrays\<close>

definition vadd :: "double list \<Rightarrow> double list \<Rightarrow> double list" where
  "vadd xs ys = map2 (fadd Fin) xs ys"

definition vsub :: "double list \<Rightarrow> double list \<Rightarrow> double list" where
  "vsub xs ys = map2 (fsub Fin) xs ys"

definition vmul :: "double list \<Rightarrow> double list \<Rightarrow> double list" where
  "vmul xs ys = map2 (fmul Fin) xs ys"

definition smul :: "double \<Rightarrow> double list \<Rightarrow> double list" where
  "smul c xs = map (fmul Fin c) xs"

text \<open>A boolean Series times a numeric one: \<open>True\<close> counts as 1, \<open>False\<close> as 0.\<close>

definition indicator :: "bool \<Rightarrow> double" where
  "indicator b = (if b then Fin 1 else Fin 0)"

text \<open>
  \<open>x ** y\<close> on a float, for an exponent \<open>y\<close> strictly between 0 and 1 (the cells use
  \<open>1/12\<close>). For a negative base numpy gives NaN, with a warning, and goes on; the power
  of either infinity is \<open>+inf\<close>.
\<close>

fun np_power :: "double \<Rightarrow> real \<Rightarrow> double" where
  "np_power (Fin x) y = (if x < 0 then NaN else Fin (x powr y))"
| "np_power PosInf y = PosInf"
| "np_power NegInf y = PosInf"
| "np_power NaN y = NaN"

text \<open>\<open>np.exp\<close> on a float.\<close>

fun np_exp :: "double \<Rightarrow> double" where
  "np_exp (Fin x) = Fin (exp x)"
| "np_exp PosInf = PosInf"
| "np_exp NegInf = Fin 0"
| "np_exp NaN = NaN"

text \<open>\<open>1 - (1 - rate) ** (1/12)\<close>: an annual rate as a monthly one.\<close>

definition monthly :: "double list \<Rightarrow> double list" where
  "monthly rate =
     map (\<lambda>x. fsub Fin (Fin 1) (np_power (fsub Fin (Fin 1) x) (1 / 12))) rate"

text \<open>numpy indexing \<open>a[i]\<close>: a negative index counts from the end, out of range raises.\<close>

definition np_get :: "'a list \<Rightarrow> int \<Rightarrow> py_error + 'a" where
  "np_get xs i =
     (let n = int (length xs); j = (if i < 0 then n + i else i)
      in if 0 \<le> j \<and> j < n then Inr (xs ! nat j) else Inl IndexError)"

text \<open>
  \<open>Series.reindex(keys, fill_value)\<close>: the value of each key, the fill value for a key
  the Series does not have. pandas refuses a Series with a label twice in its index.
\<close>

definition reindex :: "('k \<times> 'v) list \<Rightarrow> 'k list \<Rightarrow> 'v \<Rightarrow> py_error + 'v list" where
  "reindex series keys fill_value =
     (if distinct (map fst series)
      then Inr (map (\<lambda>k. case map_of series k of None \<Rightarrow> fill_value | Some v \<Rightarrow> v) keys)
      else Inl (ValueError ''cannot reindex on an axis with duplicate labels''))"

subsection \<open>References\<close>

text \<open>
  A row of \<open>model_point()\<close>: \<open>model_point_table\<close> joined with \<open>product_spec_table\<close>. The
  fields are the columns the cells read.
\<close>

record model_point_row =
  mp_age_at_entry :: int
  mp_sex :: string
  mp_policy_term :: int
  mp_policy_count :: double
  mp_sum_assured :: double
  mp_duration_mth :: int
  mp_premium_pp :: double
  mp_av_pp_init :: double
  mp_accum_prem_init_pp :: double
  mp_premium_type :: string
  mp_has_surr_charge :: bool
  mp_surr_charge_id :: string
  mp_load_prem_rate :: double
  mp_is_wl :: bool

text \<open>
  A DataFrame with float cells: the labels of its index, the labels of its columns and
  the cell at a pair of labels. The columns of \<open>mort_table\<close> are read through
  \<open>int(col)\<close>; they are kept as integers.
\<close>

record ('r, 'c) data_frame =
  df_index :: "'r list"
  df_columns :: "'c list"
  df_at :: "'r \<Rightarrow> 'c \<Rightarrow> double"

record proj_refs =
  model_point_table_joined :: "model_point_row list"
  mort_table :: "(int, int) data_frame"
  surr_charge_table :: "(int, string) data_frame"
  std_norm_rand :: "double list list"

definition scen_id :: int where
  "scen_id = 1"

subsection \<open>Cells that read the references\<close>

definition model_point_table_ext :: "proj_refs \<Rightarrow> model_point_row list" where
  "model_point_table_ext e = model_point_table_joined e"

definition model_point :: "proj_refs \<Rightarrow> model_point_row list" where
  "model_point e = model_point_table_ext e"

definition age_at_entry :: "proj_refs \<Rightarrow> int list" where
  "age_at_entry e = map mp_age_at_entry (model_point e)"

definition sum_assured :: "proj_refs \<Rightarrow> double list" where
  "sum_assured e = map mp_sum_assured (model_point e)"

definition av_pp_init :: "proj_refs \<Rightarrow> double list" where
  "av_pp_init e = map mp_av_pp_init (model_point e)"

definition accum_prem_init_pp :: "proj_refs \<Rightarrow> double list" where
  "accum_prem_init_pp e = map mp_accum_prem_init_pp (model_point e)"

definition premium_type :: "proj_refs \<Rightarrow> string list" where
  "premium_type e = map mp_premium_type (model_point e)"

definition has_surr_charge :: "proj_refs \<Rightarrow> bool list" where
  "has_surr_charge e = map mp_has_surr_charge (model_point e)"

definition surr_charge_id :: "proj_refs \<Rightarrow> string list" where
  "surr_charge_id e = map mp_surr_charge_id (model_point e)"

definition load_prem_rate :: "proj_refs \<Rightarrow> double list" where
  "load_prem_rate e = map mp_load_prem_rate (model_point e)"

definition is_wl :: "proj_refs \<Rightarrow> bool list" where
  "is_wl e = map mp_is_wl (model_point e)"

definition maint_fee_av :: double where
  "maint_fee_av = Fin (0.01 / 12)"

text \<open>
  \<open>mort_table_last_age\<close>: the loop over the ages of the table returns the first age
  whose row is all ones. \<open>mort_table.loc[i]\<close> is a row when the age \<open>i\<close> is once in the
  index; when it is there twice it is a table, \<open>(mort_i == 1).all()\<close> is a Series, and
  the \<open>if\<close> on it raises. After the loop the last age is returned; on an empty table
  the loop variable is unbound at \<open>return i\<close>.
\<close>

fun last_age_loop :: "(int, int) data_frame \<Rightarrow> int list \<Rightarrow> py_error + int option" where
  "last_age_loop tbl [] = Inr None"
| "last_age_loop tbl (i # rest) =
     (if 1 < count_list (df_index tbl) i
      then Inl (ValueError ''The truth value of a Series is ambiguous'')
      else if list_all (\<lambda>c. df_at tbl i c = Fin 1) (df_columns tbl) then Inr (Some i)
      else last_age_loop tbl rest)"

definition mort_table_last_age :: "proj_refs \<Rightarrow> py_error + int" where
  "mort_table_last_age e =
     and_then (last_age_loop (mort_table e) (df_index (mort_table e))) (\<lambda>found.
       case found of
         Some i \<Rightarrow> Inr i
       | None \<Rightarrow>
           if df_index (mort_table e) = [] then Inl (UnboundLocalError ''i'')
           else Inr (last (df_index (mort_table e))))"

definition policy_term :: "proj_refs \<Rightarrow> py_error + int list" where
  "policy_term e =
     and_then (mort_table_last_age e) (\<lambda>last_age.
       Inr (map (\<lambda>mp. (if mp_is_wl mp then 1 else 0) * (last_age - mp_age_at_entry mp)
                     + (if mp_is_wl mp = False then 1 else 0) * mp_policy_term mp)
                (model_point e)))"

text \<open>
  \<open>mort_table_reindexed\<close>: the columns one after the other, each keyed by age and
  \<open>int(col)\<close>.
\<close>

definition mort_table_reindexed :: "proj_refs \<Rightarrow> ((int \<times> int) \<times> double) list" where
  "mort_table_reindexed e =
     concat (map (\<lambda>col. map (\<lambda>a. ((a, col), df_at (mort_table e) a col))
                            (df_index (mort_table e)))
                 (df_columns (mort_table e)))"

text \<open>
  \<open>surr_charge_table.stack().reorder_levels([1, 0]).sort_index()\<close>: keyed by column
  label, then row label. The order of the entries is not seen through \<open>reindex\<close>.
\<close>

definition surr_charge_table_stacked ::
  "proj_refs \<Rightarrow> ((string \<times> int) \<times> double) list" where
  "surr_charge_table_stacked e =
     concat (map (\<lambda>d. map (\<lambda>c. ((c, d), df_at (surr_charge_table e) d c))
                          (df_columns (surr_charge_table e)))
                 (df_index (surr_charge_table e)))"

definition surr_charge_max_idx :: "proj_refs \<Rightarrow> py_error + int" where
  "surr_charge_max_idx e =
     (case df_index (surr_charge_table e) of
        [] \<Rightarrow> Inl (ValueError ''max() arg is an empty sequence'')
      | d # ds \<Rightarrow> Inr (fold max ds d))"

definition inv_return_table :: "proj_refs \<Rightarrow> double list list" where
  "inv_return_table e =
     map (map (\<lambda>z. fsub Fin
                      (np_exp (fadd Fin (Fin (0.02 * 1 / 12))
                                 (fmul Fin (Fin (0.03 * (1 / 12) powr 0.5)) z)))
                      (Fin 1)))
         (std_norm_rand e)"

definition inv_return_mth :: "proj_refs \<Rightarrow> int \<Rightarrow> py_error + double" where
  "inv_return_mth e t =
     and_then (np_get (inv_return_table e) scen_id) (\<lambda>row. np_get row t)"

subsection \<open>Duration, age and the decrement rates\<close>

fun duration_mth :: "nat \<Rightarrow> proj_refs \<Rightarrow> int \<Rightarrow> int list cell" where
  "duration_mth 0 e t = None"
| "duration_mth (Suc n) e t =
     (if t = 0 then ret (map mp_duration_mth (model_point e))
      else map_cell (map (\<lambda>d. d + 1)) (duration_mth n e (t - 1)))"

definition duration :: "nat \<Rightarrow> proj_refs \<Rightarrow> int \<Rightarrow> int list cell" where
  "duration n e t = map_cell (map (\<lambda>d. d div 12)) (duration_mth n e t)"

definition age :: "nat \<Rightarrow> proj_refs \<Rightarrow> int \<Rightarrow> int list cell" where
  "age n e t = map_cell (\<lambda>d. map2 (+) (age_at_entry e) d) (duration n e t)"

definition mort_rate :: "nat \<Rightarrow> proj_refs \<Rightarrow> int \<Rightarrow> double list cell" where
  "mort_rate n e t =
     bind_cell (age n e t) (\<lambda>a.
     bind_cell (duration n e t) (\<lambda>d.
     Some (reindex (mort_table_reindexed e) (zip a (map (\<lambda>x. min x 5) d)) (Fin 0))))"

definition mort_rate_mth :: "nat \<Rightarrow> proj_refs \<Rightarrow> int \<Rightarrow> double list cell" where
  "mort_rate_mth n e t = map_cell monthly (mort_rate n e t)"

text \<open>\<open>np.maximum(0.1 - 0.02 * duration(t), 0.02)\<close>, of integers: finite numbers.\<close>

definition lapse_rate :: "nat \<Rightarrow> proj_refs \<Rightarrow> int \<Rightarrow> double list cell" where
  "lapse_rate n e t =
     map_cell (map (\<lambda>d. Fin (max (0.1 - 0.02 * real_of_int d) 0.02))) (duration n e t)"

definition coi_av :: "nat \<Rightarrow> proj_refs \<Rightarrow> int \<Rightarrow> double list cell" where
  "coi_av n e t = map_cell (smul (Fin 1.1)) (mort_rate_mth n e t)"

subsection \<open>Premiums\<close>

definition premium_pp :: "nat \<Rightarrow> proj_refs \<Rightarrow> int \<Rightarrow> double list cell" where
  "premium_pp n e t =
     bind_cell (duration_mth n e t) (\<lambda>d1.
     bind_cell (duration_mth n e t) (\<lambda>d2.
     bind_cell (Some (policy_term e)) (\<lambda>term.
       ret (vadd
         (map2 (\<lambda>mp d. fmul Fin (indicator (mp_premium_type mp = ''SINGLE'' \<and> d = 0))
                                (mp_premium_pp mp))
               (model_point e) d1)
         (map2 (\<lambda>mp (d, pt). fmul Fin (indicator (mp_premium_type mp = ''LEVEL'' \<and> d < 12 * pt))
                                     (mp_premium_pp mp))
               (model_point e) (zip d2 term))))))"

definition prem_to_av_pp :: "nat \<Rightarrow> proj_refs \<Rightarrow> int \<Rightarrow> double list cell" where
  "prem_to_av_pp n e t =
     map_cell (\<lambda>p. vmul (map (\<lambda>l. fsub Fin (Fin 1) l) (load_prem_rate e)) p)
       (premium_pp n e t)"

fun accum_prem_pp :: "nat \<Rightarrow> proj_refs \<Rightarrow> int \<Rightarrow> double list cell" where
  "accum_prem_pp 0 e t = None"
| "accum_prem_pp (Suc n) e t =
     lift2 vadd
       (if t = 0 then ret (accum_prem_init_pp e) else accum_prem_pp n e (t - 1))
       (premium_pp n e t)"

subsection \<open>Policies in force\<close>

definition pols_if_init :: "nat \<Rightarrow> proj_refs \<Rightarrow> double list cell" where
  "pols_if_init n e =
     map_cell
       (\<lambda>d. map2 (\<lambda>mp dm. if dm > 0 then mp_policy_count mp else Fin 0) (model_point e) d)
       (duration_mth n e 0)"

definition pols_new_biz :: "nat \<Rightarrow> proj_refs \<Rightarrow> int \<Rightarrow> double list cell" where
  "pols_new_biz n e t =
     map_cell
       (\<lambda>d. map2 (\<lambda>mp dm. if dm = 0 then mp_policy_count mp else Fin 0) (model_point e) d)
       (duration_mth n e t)"

function (sequential)
  pols_if_at :: "nat \<Rightarrow> proj_refs \<Rightarrow> int \<Rightarrow> string \<Rightarrow> double list cell"
and pols_lapse :: "nat \<Rightarrow> proj_refs \<Rightarrow> int \<Rightarrow> double list cell"
and pols_death :: "nat \<Rightarrow> proj_refs \<Rightarrow> int \<Rightarrow> double list cell"
and pols_maturity :: "nat \<Rightarrow> proj_refs \<Rightarrow> int \<Rightarrow> double list cell"
where
  "pols_if_at 0 e t timing = None"
| "pols_if_at (Suc n) e t timing =
     (if timing = ''BEF_MAT'' then
        (if t = 0 then pols_if_init n e
         else lift2 vsub
                (lift2 vsub (pols_if_at n e (t - 1) ''BEF_DECR'') (pols_lapse n e (t - 1)))
                (pols_death n e (t - 1)))
      else if timing = ''BEF_NB'' then
        lift2 vsub (pols_if_at n e t ''BEF_MAT'') (pols_maturity n e t)
      else if timing = ''BEF_DECR'' then
        lift2 vadd (pols_if_at n e t ''BEF_NB'') (pols_new_biz n e t)
      else raise (ValueError ''invalid timing''))"
| "pols_lapse 0 e t = None"
| "pols_lapse (Suc n) e t =
     lift2 vmul
       (lift2 vsub (pols_if_at n e t ''BEF_DECR'') (pols_death n e t))
       (map_cell monthly (lapse_rate n e t))"
| "pols_death 0 e t = None"
| "pols_death (Suc n) e t =
     lift2 vmul (pols_if_at n e t ''BEF_DECR'') (mort_rate_mth n e t)"
| "pols_maturity 0 e t = None"
| "pols_maturity (Suc n) e t =
     bind_cell (duration_mth n e t) (\<lambda>d.
     bind_cell (Some (policy_term e)) (\<lambda>term.
     bind_cell (pols_if_at n e t ''BEF_MAT'') (\<lambda>p.
       ret (vmul (map2 (\<lambda>dm pt. indicator (dm = pt * 12)) d term) p))))"
  by pat_completeness auto
termination
  by (relation "measure (case_sum (case_sum fst fst) (case_sum fst fst))") auto

subsection \<open>Account value\<close>

function (sequential)
  av_pp_at :: "nat \<Rightarrow> proj_refs \<Rightarrow> int \<Rightarrow> string \<Rightarrow> double list cell"
and inv_income_pp :: "nat \<Rightarrow> proj_refs \<Rightarrow> int \<Rightarrow> double list cell"
and maint_fee_pp :: "nat \<Rightarrow> proj_refs \<Rightarrow> int \<Rightarrow> double list cell"
and coi_pp :: "nat \<Rightarrow> proj_refs \<Rightarrow> int \<Rightarrow> double list cell"
and net_amt_at_risk :: "nat \<Rightarrow> proj_refs \<Rightarrow> int \<Rightarrow> double list cell"
where
  "av_pp_at 0 e t timing = None"
| "av_pp_at (Suc n) e t timing =
     (if timing = ''BEF_PREM'' then
        (if t = 0 then ret (av_pp_init e)
         else lift2 vadd (av_pp_at n e (t - 1) ''BEF_INV'') (inv_income_pp n e (t - 1)))
      else if timing = ''BEF_FEE'' then
        lift2 vadd (av_pp_at n e t ''BEF_PREM'') (prem_to_av_pp n e t)
      else if timing = ''BEF_INV'' then
        lift2 vsub
          (lift2 vsub (av_pp_at n e t ''BEF_FEE'') (maint_fee_pp n e t))
          (coi_pp n e t)
      else if timing = ''MID_MTH'' then
        lift2 vadd (av_pp_at n e t ''BEF_INV'') (map_cell (smul (Fin 0.5)) (inv_income_pp n e t))
      else raise (ValueError ''invalid timing''))"
| "inv_income_pp 0 e t = None"
| "inv_income_pp (Suc n) e t =
     bind_cell (Some (inv_return_mth e t)) (\<lambda>r. map_cell (smul r) (av_pp_at n e t ''BEF_INV''))"
| "maint_fee_pp 0 e t = None"
| "maint_fee_pp (Suc n) e t = map_cell (smul maint_fee_av) (av_pp_at n e t ''BEF_FEE'')"
| "coi_pp 0 e t = None"
| "coi_pp (Suc n) e t = lift2 vmul (coi_av n e t) (net_amt_at_risk n e t)"
| "net_amt_at_risk 0 e t = None"
| "net_amt_at_risk (Suc n) e t =
     map_cell (\<lambda>av. map (\<lambda>x. np_maximum x (Fin 0)) (vsub (sum_assured e) av))
       (av_pp_at n e t ''BEF_FEE'')"
  by pat_completeness auto
termination
  by (relation "measure (case_sum (case_sum fst fst) (case_sum fst (case_sum fst fst)))") auto

definition av_at :: "nat \<Rightarrow> proj_refs \<Rightarrow> int \<Rightarrow> string \<Rightarrow> double list cell" where
  "av_at n e t timing =
     (if timing = ''BEF_MAT'' then
        lift2 vmul (av_pp_at n e t ''BEF_PREM'') (pols_if_at n e t ''BEF_MAT'')
      else if timing = ''BEF_NB'' then
        lift2 vmul (av_pp_at n e t ''BEF_PREM'') (pols_if_at n e t ''BEF_NB'')
      else if timing = ''BEF_FEE'' then
        lift2 vmul (av_pp_at n e t ''BEF_FEE'') (pols_if_at n e t ''BEF_DECR'')
      else raise (ValueError ''invalid timing''))"

subsection \<open>Claims\<close>

definition claim_pp :: "nat \<Rightarrow> proj_refs \<Rightarrow> int \<Rightarrow> string \<Rightarrow> double list cell" where
  "claim_pp n e t kind =
     (if kind = ''DEATH'' then
        map_cell (\<lambda>av. map2 np_maximum (sum_assured e) av) (av_pp_at n e t ''MID_MTH'')
      else if kind = ''LAPSE'' then av_pp_at n e t ''MID_MTH''
      else if kind = ''MATURITY'' then av_pp_at n e t ''BEF_PREM''
      else raise (ValueError ''invalid kind''))"

definition claims_from_av :: "nat \<Rightarrow> proj_refs \<Rightarrow> int \<Rightarrow> string \<Rightarrow> double list cell" where
  "claims_from_av n e t kind =
     (if kind = ''DEATH'' then lift2 vmul (av_pp_at n e t ''MID_MTH'') (pols_death n e t)
      else if kind = ''LAPSE'' then lift2 vmul (av_pp_at n e t ''MID_MTH'') (pols_lapse n e t)
      else if kind = ''MATURITY'' then
        lift2 vmul (av_pp_at n e t ''BEF_PREM'') (pols_maturity n e t)
      else raise (ValueError ''invalid kind''))"

definition surr_charge_av :: "nat \<Rightarrow> proj_refs \<Rightarrow> int \<Rightarrow> double list cell" where
  "surr_charge_av n e t =
     bind_cell (duration n e t) (\<lambda>d.
     bind_cell (Some (surr_charge_max_idx e)) (\<lambda>max_idx.
       Some (reindex (surr_charge_table_stacked e)
              (zip (map2 (\<lambda>h c. if h then c else []) (has_surr_charge e) (surr_charge_id e))
                   (map (\<lambda>x. min x max_idx) d))
              (Fin 0))))"

definition surr_charge :: "nat \<Rightarrow> proj_refs \<Rightarrow> int \<Rightarrow> double list cell" where
  "surr_charge n e t =
     lift2 vmul
       (lift2 vmul (surr_charge_av n e t) (av_pp_at n e t ''MID_MTH''))
       (pols_lapse n e t)"

text \<open>
  \<open>claims(t, kind=None)\<close>: the kind is optional; without one the cell sums itself over
  the three kinds, from Python's \<open>0\<close>.
\<close>

function claims :: "nat \<Rightarrow> proj_refs \<Rightarrow> int \<Rightarrow> string option \<Rightarrow> double list cell" where
  "claims n e t kind =
     (if kind = Some ''DEATH'' then lift2 vmul (claim_pp n e t ''DEATH'') (pols_death n e t)
      else if kind = Some ''LAPSE'' then
        lift2 vsub (claims_from_av n e t ''LAPSE'') (surr_charge n e t)
      else if kind = Some ''MATURITY'' then claims_from_av n e t ''MATURITY''
      else if kind = None then
        lift2 vadd
          (lift2 vadd
             (map_cell (map (\<lambda>x. fadd Fin (Fin 0) x)) (claims n e t (Some ''DEATH'')))
             (claims n e t (Some ''LAPSE'')))
          (claims n e t (Some ''MATURITY''))
      else raise (ValueError ''invalid kind''))"
  by pat_completeness auto
termination
  by (relation "measure (\<lambda>(n, e, t, kind). if kind = None then 1 else 0)") auto

subsection \<open>An example projection\<close>

text \<open>
  Two model points: one in force for 25 months, one to be issued at \<open>t = 3\<close>. The
  mortality table has the ages 30 to 32.
\<close>

definition proj_example :: proj_refs where
  "proj_example =
     \<lparr> model_point_table_joined =
         [\<lparr> mp_age_at_entry = 30, mp_sex = ''M'', mp_policy_term = 10,
             mp_policy_count = Fin 100, mp_sum_assured = Fin 1000, mp_duration_mth = 25,
             mp_premium_pp = Fin 10, mp_av_pp_init = Fin 500, mp_accum_prem_init_pp = Fin 0,
             mp_premium_type = ''LEVEL'', mp_has_surr_charge = True,
             mp_surr_charge_id = ''A'', mp_load_prem_rate = Fin (1 / 10), mp_is_wl = False \<rparr>,
          \<lparr> mp_age_at_entry = 40, mp_sex = ''F'', mp_policy_term = 20,
             mp_policy_count = Fin 50, mp_sum_assured = Fin 2000, mp_duration_mth = - 3,
             mp_premium_pp = Fin 20, mp_av_pp_init = Fin 0, mp_accum_prem_init_pp = Fin 0,
             mp_premium_type = ''SINGLE'', mp_has_surr_charge = False,
             mp_surr_charge_id = ''B'', mp_load_prem_rate = Fin 0, mp_is_wl = False \<rparr>],
       mort_table = \<lparr> df_index = [30, 31, 32], df_columns = [0, 1, 2, 3, 4, 5],
                      df_at = (\<lambda>a c. if a = 32 then Fin 1 else Fin (1 / 100)) \<rparr>,
       surr_charge_table = \<lparr> df_index = [0, 1, 2], df_columns = [''A''],
                             df_at = (\<lambda>d c. Fin (1 / 20)) \<rparr>,
       std_norm_rand = [[Fin 0, Fin 0, Fin 0], [Fin 0, Fin 0, Fin 0]] \<rparr>"

text \<open>
  The same with another mortality table: \<open>with_mort_table\<close> replaces the table of a
  run.
\<close>

definition with_mort_table :: "(int, int) data_frame \<Rightarrow> proj_refs \<Rightarrow> proj_refs" where
  "with_mort_table tbl e = e \<lparr> mort_table := tbl \<rparr>"


text \<open>A table with the mortality rate 2 at the age 32.\<close>

definition proj_nan :: proj_refs where
  "proj_nan =
     with_mort_table
       \<lparr> df_index = [30, 31, 32], df_columns = [0, 1, 2, 3, 4, 5],
         df_at = (\<lambda>a c. if a = 32 then Fin 2 else Fin (1 / 100)) \<rparr>
       proj_example"

text \<open>A table with an infinite mortality rate at the age 32.\<close>

definition proj_inf :: proj_refs where
  "proj_inf =
     with_mort_table
       \<lparr> df_index = [30, 31, 32], df_columns = [0, 1, 2, 3, 4, 5],
         df_at = (\<lambda>a c. if a = 32 then PosInf else Fin (1 / 100)) \<rparr>
       proj_example"

section \<open>Properties of the projection cells\<close>

declare claims.simps [simp del]

subsection \<open>Returning at every large enough depth\<close>

text \<open>
  \<open>settles f r\<close>: the call \<open>f\<close> has the outcome \<open>r\<close> (a value or an exception) at every
  depth bound from some bound on. \<open>terminates f\<close>: it has some outcome.
\<close>

definition settles :: "(nat \<Rightarrow> 'a option) \<Rightarrow> 'a \<Rightarrow> bool" where
  "settles f r = (\<exists>N. \<forall>n\<ge>N. f n = Some r)"

definition terminates :: "(nat \<Rightarrow> 'a option) \<Rightarrow> bool" where
  "terminates f = (\<exists>r. settles f r)"

lemma settlesI: "(\<And>n. N \<le> n \<Longrightarrow> f n = Some r) \<Longrightarrow> settles f r"
  unfolding settles_def by blast

lemma settles_const: "settles (\<lambda>n. Some r) r"
  by (rule settlesI[of 0]) simp

lemma settles_ret: "settles (\<lambda>n. ret x) (Inr x)"
  unfolding ret_def by (rule settles_const)

lemma settles_unique:
  assumes "settles f r" and "settles f r'"
  shows "r = r'"
proof -
  from assms obtain N N' where a: "\<forall>n\<ge>N. f n = Some r" and b: "\<forall>n\<ge>N'. f n = Some r'"
    unfolding settles_def by blast
  from a have "f (max N N') = Some r" by simp
  moreover from b have "f (max N N') = Some r'" by simp
  ultimately show ?thesis by simp
qed

lemma settles_bind:
  assumes "settles m (Inr x)" and "settles (\<lambda>n. f n x) r"
  shows "settles (\<lambda>n. bind_cell (m n) (f n)) r"
proof -
  from assms obtain N N' where a: "\<forall>n\<ge>N. m n = Some (Inr x)" and b: "\<forall>n\<ge>N'. f n x = Some r"
    unfolding settles_def by blast
  show ?thesis
  proof (rule settlesI[of "max N N'"])
    fix n assume "max N N' \<le> n"
    with a b have "m n = Some (Inr x)" "f n x = Some r" by simp_all
    then show "bind_cell (m n) (f n) = Some r" by (simp add: bind_cell_def)
  qed
qed

lemma settles_bind_error:
  assumes "settles m (Inl err)"
  shows "settles (\<lambda>n. bind_cell (m n) (f n)) (Inl err)"
proof -
  from assms obtain N where a: "\<forall>n\<ge>N. m n = Some (Inl err)"
    unfolding settles_def by blast
  show ?thesis
  proof (rule settlesI[of N])
    fix n assume "N \<le> n"
    with a have "m n = Some (Inl err)" by simp
    then show "bind_cell (m n) (f n) = Some (Inl err)" by (simp add: bind_cell_def)
  qed
qed

lemma settles_map:
  assumes "settles m (Inr x)"
  shows "settles (\<lambda>n. map_cell g (m n)) (Inr (g x))"
  unfolding map_cell_def using assms settles_ret by (rule settles_bind)

lemma settles_Suc:
  assumes "settles (\<lambda>n. f (Suc n)) r"
  shows "settles f r"
proof -
  from assms obtain N where a: "\<forall>n\<ge>N. f (Suc n) = Some r"
    unfolding settles_def by blast
  show ?thesis
  proof (rule settlesI[of "Suc N"])
    fix n assume "Suc N \<le> n"
    then obtain k where "n = Suc k" "N \<le> k" by (cases n) auto
    with a show "f n = Some r" by simp
  qed
qed

lemma terminatesI: "settles f r \<Longrightarrow> terminates f"
  unfolding terminates_def by blast

lemma terminates_const: "terminates (\<lambda>n. Some r)"
  by (rule terminatesI) (rule settles_const)

lemma terminates_bind:
  assumes "terminates m" and "\<And>x. terminates (\<lambda>n. f n x)"
  shows "terminates (\<lambda>n. bind_cell (m n) (f n))"
proof -
  from assms(1) obtain r where r: "settles m r" unfolding terminates_def by blast
  show ?thesis
  proof (cases r)
    case (Inl err)
    with r show ?thesis by (auto intro: terminatesI settles_bind_error)
  next
    case (Inr x)
    from assms(2)[of x] obtain r' where "settles (\<lambda>n. f n x) r'"
      unfolding terminates_def by blast
    with r Inr show ?thesis by (auto intro: terminatesI settles_bind)
  qed
qed

lemma terminates_map:
  assumes "terminates m"
  shows "terminates (\<lambda>n. map_cell g (m n))"
  unfolding map_cell_def ret_def by (rule terminates_bind[OF assms]) (rule terminates_const)

lemma terminates_lift2:
  assumes "terminates a" and "terminates b"
  shows "terminates (\<lambda>n. lift2 g (a n) (b n))"
  unfolding lift2_def ret_def
  by (rule terminates_bind[OF assms(1)]) (rule terminates_bind[OF assms(2)], rule terminates_const)

lemma terminates_Suc: "terminates (\<lambda>n. f (Suc n)) \<Longrightarrow> terminates f"
  unfolding terminates_def by (blast intro: settles_Suc)

subsection \<open>Durations\<close>

lemma map2_map_same: "map2 h (map f xs) (map g xs) = map (\<lambda>x. h (f x) (g x)) xs"
  by (induction xs) simp_all

lemma map2_left_same: "map2 h xs (map g xs) = map (\<lambda>x. h x (g x)) xs"
  by (induction xs) simp_all

lemma duration_mth_settles:
  "0 \<le> t \<Longrightarrow>
   settles (\<lambda>n. duration_mth n e t) (Inr (map (\<lambda>mp. mp_duration_mth mp + t) (model_point e)))"
proof (induction "nat t" arbitrary: t)
  case 0
  then have "t = 0" by simp
  then show ?case
    by - (rule settles_Suc, simp add: settles_ret)
next
  case (Suc k)
  then have t: "t \<noteq> 0" "0 \<le> t - 1" "k = nat (t - 1)" by simp_all
  from Suc.hyps(1)[OF t(3) t(2)]
  have "settles (\<lambda>n. map_cell (map (\<lambda>d. d + 1)) (duration_mth n e (t - 1)))
          (Inr (map (\<lambda>d. d + 1) (map (\<lambda>mp. mp_duration_mth mp + (t - 1)) (model_point e))))"
    by (rule settles_map)
  with t(1) show ?case
    by - (rule settles_Suc, simp add: comp_def)
qed


lemma duration_settles:
  "0 \<le> t \<Longrightarrow>
   settles (\<lambda>n. duration n e t)
     (Inr (map (\<lambda>mp. (mp_duration_mth mp + t) div 12) (model_point e)))"
  unfolding duration_def
  using settles_map[OF duration_mth_settles, of t "map (\<lambda>d. d div 12)" e]
  by (simp add: comp_def)

lemma age_settles:
  "0 \<le> t \<Longrightarrow>
   settles (\<lambda>n. age n e t)
     (Inr (map (\<lambda>mp. mp_age_at_entry mp + (mp_duration_mth mp + t) div 12) (model_point e)))"
  unfolding age_def
  using settles_map[OF duration_settles, of t "\<lambda>d. map2 (+) (age_at_entry e) d" e]
  by (simp add: age_at_entry_def map2_map_same)

subsection \<open>Unrecognized timings and kinds\<close>

text \<open>
  Claim C4. A timing or kind outside the values a cell compares against makes the cell
  raise \<open>ValueError("invalid timing")\<close> or \<open>ValueError("invalid kind")\<close>, at every \<open>t\<close>
  and before any other cell is called: for the two recursive cells at every depth bound
  that admits the call itself, for the others at every bound.
\<close>

theorem invalid_timing_or_kind_raises:
  "(timing \<notin> {''BEF_MAT'', ''BEF_NB'', ''BEF_DECR''} \<longrightarrow>
      pols_if_at (Suc n) e t timing = raise (ValueError ''invalid timing''))
   \<and> (timing \<notin> {''BEF_MAT'', ''BEF_NB'', ''BEF_FEE''} \<longrightarrow>
      av_at n e t timing = raise (ValueError ''invalid timing''))
   \<and> (timing \<notin> {''BEF_PREM'', ''BEF_FEE'', ''BEF_INV'', ''MID_MTH''} \<longrightarrow>
      av_pp_at (Suc n) e t timing = raise (ValueError ''invalid timing''))
   \<and> (kind \<notin> {''DEATH'', ''LAPSE'', ''MATURITY''} \<longrightarrow>
      claim_pp n e t kind = raise (ValueError ''invalid kind'')
      \<and> claims n e t (Some kind) = raise (ValueError ''invalid kind'')
      \<and> claims_from_av n e t kind = raise (ValueError ''invalid kind''))"
proof (intro conjI impI)
  assume "timing \<notin> {''BEF_MAT'', ''BEF_NB'', ''BEF_DECR''}"
  then show "pols_if_at (Suc n) e t timing = raise (ValueError ''invalid timing'')"
    by simp
next
  assume "timing \<notin> {''BEF_MAT'', ''BEF_NB'', ''BEF_FEE''}"
  then show "av_at n e t timing = raise (ValueError ''invalid timing'')"
    by (simp add: av_at_def)
next
  assume "timing \<notin> {''BEF_PREM'', ''BEF_FEE'', ''BEF_INV'', ''MID_MTH''}"
  then show "av_pp_at (Suc n) e t timing = raise (ValueError ''invalid timing'')"
    by simp
next
  assume k: "kind \<notin> {''DEATH'', ''LAPSE'', ''MATURITY''}"
  then show "claim_pp n e t kind = raise (ValueError ''invalid kind'')"
    by (simp add: claim_pp_def)
  from k show "claims n e t (Some kind) = raise (ValueError ''invalid kind'')"
    by (subst claims.simps) simp
  from k show "claims_from_av n e t kind = raise (ValueError ''invalid kind'')"
    by (simp add: claims_from_av_def)
qed

theorem invalid_timing_or_kind_raises_witness:
  "pols_if_at 1 proj_example 7 ''BEF_PREM'' = Some (Inl (ValueError ''invalid timing''))
   \<and> av_at 0 proj_example (- 2) ''MID_MTH'' = Some (Inl (ValueError ''invalid timing''))
   \<and> av_pp_at 1 proj_example 7 ''BEF_MAT'' = Some (Inl (ValueError ''invalid timing''))
   \<and> claim_pp 0 proj_example 7 ''SURRENDER'' = Some (Inl (ValueError ''invalid kind''))
   \<and> claims 0 proj_example 7 (Some ''SURRENDER'') = Some (Inl (ValueError ''invalid kind''))
   \<and> claims_from_av 0 proj_example 7 ''SURRENDER'' = Some (Inl (ValueError ''invalid kind''))"
  using invalid_timing_or_kind_raises[of "''BEF_PREM''" 0 proj_example 7]
    invalid_timing_or_kind_raises[of "''MID_MTH''" 0 proj_example "- 2"]
    invalid_timing_or_kind_raises[of "''BEF_MAT''" 0 proj_example 7 "''SURRENDER''"]
  by (simp add: raise_def)

subsection \<open>Lookups in the mortality table\<close>













subsection \<open>In force at time 0 and new business\<close>

lemma pols_if_init_settles:
  "settles (\<lambda>n. pols_if_init n e)
     (Inr (map (\<lambda>mp. if mp_duration_mth mp > 0 then mp_policy_count mp else Fin 0) (model_point e)))"
  unfolding pols_if_init_def
  using settles_map[OF duration_mth_settles[of 0 e],
      of "\<lambda>d. map2 (\<lambda>mp dm. if dm > 0 then mp_policy_count mp else Fin 0) (model_point e) d"]
  by (simp add: map2_left_same)

lemma pols_new_biz_settles:
  "0 \<le> t \<Longrightarrow>
   settles (\<lambda>n. pols_new_biz n e t)
     (Inr (map (\<lambda>mp. if mp_duration_mth mp + t = 0 then mp_policy_count mp else Fin 0)
               (model_point e)))"
  unfolding pols_new_biz_def
  using settles_map[OF duration_mth_settles[of t e],
      of "\<lambda>d. map2 (\<lambda>mp dm. if dm = 0 then mp_policy_count mp else Fin 0) (model_point e) d"]
  by (simp add: map2_left_same)

text \<open>
  Claim C9. \<open>pols_if_init()\<close> has the policy count of a model point with
  \<open>duration_mth(0) > 0\<close> and \<open>0\<close> for every other one. For \<open>t \<ge> 0\<close>, \<open>duration_mth(t)\<close> is
  \<open>duration_mth(0) + t\<close>, and \<open>pols_new_biz(t)\<close> has the policy count of the model points
  with \<open>duration_mth(t) == 0\<close> and \<open>0\<close> elsewhere: a point with \<open>duration_mth(0) = -d \<le> 0\<close>
  enters at \<open>t = d\<close>.
\<close>

theorem new_business_enters_later:
  "settles (\<lambda>n. pols_if_init n e)
     (Inr (map (\<lambda>mp. if mp_duration_mth mp > 0 then mp_policy_count mp else Fin 0) (model_point e)))
   \<and> (0 \<le> t \<longrightarrow>
        settles (\<lambda>n. duration_mth n e t)
          (Inr (map (\<lambda>mp. mp_duration_mth mp + t) (model_point e)))
      \<and> settles (\<lambda>n. pols_new_biz n e t)
          (Inr (map (\<lambda>mp. if mp_duration_mth mp + t = 0 then mp_policy_count mp else Fin 0)
                    (model_point e))))"
  using pols_if_init_settles duration_mth_settles pols_new_biz_settles by blast

theorem new_business_enters_later_witness:
  "settles (\<lambda>n. pols_if_init n proj_example) (Inr [Fin 100, Fin 0])
   \<and> settles (\<lambda>n. duration_mth n proj_example 3) (Inr [28, 0])
   \<and> settles (\<lambda>n. pols_new_biz n proj_example 3) (Inr [Fin 0, Fin 50])"
  using new_business_enters_later[of proj_example 3]
  by (simp add: proj_example_def model_point_def model_point_table_ext_def)

subsection \<open>Termination of \<open>pols_if_at\<close>\<close>

lemma duration_mth_terminates: "0 \<le> t \<Longrightarrow> terminates (\<lambda>n. duration_mth n e t)"
  by (rule terminatesI) (rule duration_mth_settles)

lemma duration_terminates: "0 \<le> t \<Longrightarrow> terminates (\<lambda>n. duration n e t)"
  by (rule terminatesI) (rule duration_settles)

lemma age_terminates: "0 \<le> t \<Longrightarrow> terminates (\<lambda>n. age n e t)"
  by (rule terminatesI) (rule age_settles)

lemma mort_rate_terminates:
  assumes "0 \<le> t"
  shows "terminates (\<lambda>n. mort_rate n e t)"
  unfolding mort_rate_def
  by (rule terminates_bind[OF age_terminates[OF assms]],
      rule terminates_bind[OF duration_terminates[OF assms]],
      rule terminates_const)

lemma mort_rate_mth_terminates:
  assumes "0 \<le> t"
  shows "terminates (\<lambda>n. mort_rate_mth n e t)"
  unfolding mort_rate_mth_def by (rule terminates_map[OF mort_rate_terminates[OF assms]])

lemma lapse_rate_terminates:
  assumes "0 \<le> t"
  shows "terminates (\<lambda>n. lapse_rate n e t)"
  unfolding lapse_rate_def by (rule terminates_map[OF duration_terminates[OF assms]])

lemma pols_new_biz_terminates: "0 \<le> t \<Longrightarrow> terminates (\<lambda>n. pols_new_biz n e t)"
  by (rule terminatesI) (rule pols_new_biz_settles)

lemma pols_if_at_BEF_MAT_0: "terminates (\<lambda>n. pols_if_at n e 0 ''BEF_MAT'')"
  by (rule terminates_Suc) (simp add: terminatesI[OF pols_if_init_settles])

lemma pols_if_at_BEF_MAT_step:
  assumes "t \<noteq> 0"
    and "terminates (\<lambda>n. pols_if_at n e (t - 1) ''BEF_DECR'')"
    and "terminates (\<lambda>n. pols_lapse n e (t - 1))"
    and "terminates (\<lambda>n. pols_death n e (t - 1))"
  shows "terminates (\<lambda>n. pols_if_at n e t ''BEF_MAT'')"
proof (rule terminates_Suc)
  have "terminates (\<lambda>n. lift2 vsub
          (lift2 vsub (pols_if_at n e (t - 1) ''BEF_DECR'') (pols_lapse n e (t - 1)))
          (pols_death n e (t - 1)))"
    by (intro terminates_lift2 assms(2-4))
  with assms(1) show "terminates (\<lambda>n. pols_if_at (Suc n) e t ''BEF_MAT'')" by simp
qed

lemma pols_maturity_terminates:
  assumes "0 \<le> t" and "terminates (\<lambda>n. pols_if_at n e t ''BEF_MAT'')"
  shows "terminates (\<lambda>n. pols_maturity n e t)"
proof (rule terminates_Suc)
  have "terminates (\<lambda>n.
     bind_cell (duration_mth n e t) (\<lambda>d.
     bind_cell (Some (policy_term e)) (\<lambda>term.
     bind_cell (pols_if_at n e t ''BEF_MAT'') (\<lambda>p.
       ret (vmul (map2 (\<lambda>dm pt. indicator (dm = pt * 12)) d term) p)))))"
    unfolding ret_def
    by (rule terminates_bind[OF duration_mth_terminates[OF assms(1)]],
        rule terminates_bind[OF terminates_const],
        rule terminates_bind[OF assms(2)],
        rule terminates_const)
  then show "terminates (\<lambda>n. pols_maturity (Suc n) e t)" by simp
qed

lemma pols_if_at_BEF_NB_terminates:
  assumes "terminates (\<lambda>n. pols_if_at n e t ''BEF_MAT'')"
    and "terminates (\<lambda>n. pols_maturity n e t)"
  shows "terminates (\<lambda>n. pols_if_at n e t ''BEF_NB'')"
proof (rule terminates_Suc)
  have "terminates (\<lambda>n. lift2 vsub (pols_if_at n e t ''BEF_MAT'') (pols_maturity n e t))"
    by (intro terminates_lift2 assms)
  then show "terminates (\<lambda>n. pols_if_at (Suc n) e t ''BEF_NB'')" by simp
qed

lemma pols_if_at_BEF_DECR_terminates:
  assumes "0 \<le> t" and "terminates (\<lambda>n. pols_if_at n e t ''BEF_NB'')"
  shows "terminates (\<lambda>n. pols_if_at n e t ''BEF_DECR'')"
proof (rule terminates_Suc)
  have "terminates (\<lambda>n. lift2 vadd (pols_if_at n e t ''BEF_NB'') (pols_new_biz n e t))"
    by (intro terminates_lift2 assms(2) pols_new_biz_terminates[OF assms(1)])
  then show "terminates (\<lambda>n. pols_if_at (Suc n) e t ''BEF_DECR'')" by simp
qed

lemma pols_death_terminates:
  assumes "0 \<le> t" and "terminates (\<lambda>n. pols_if_at n e t ''BEF_DECR'')"
  shows "terminates (\<lambda>n. pols_death n e t)"
proof (rule terminates_Suc)
  have "terminates (\<lambda>n. lift2 vmul (pols_if_at n e t ''BEF_DECR'') (mort_rate_mth n e t))"
    by (intro terminates_lift2 assms(2) mort_rate_mth_terminates[OF assms(1)])
  then show "terminates (\<lambda>n. pols_death (Suc n) e t)" by simp
qed

lemma pols_lapse_terminates:
  assumes "0 \<le> t" and "terminates (\<lambda>n. pols_if_at n e t ''BEF_DECR'')"
    and "terminates (\<lambda>n. pols_death n e t)"
  shows "terminates (\<lambda>n. pols_lapse n e t)"
proof (rule terminates_Suc)
  have "terminates (\<lambda>n. map_cell monthly (lapse_rate n e t))"
    by (rule terminates_map[OF lapse_rate_terminates[OF assms(1)]])
  then have "terminates (\<lambda>n. lift2 vmul
          (lift2 vsub (pols_if_at n e t ''BEF_DECR'') (pols_death n e t))
          (map_cell monthly (lapse_rate n e t)))"
    by (intro terminates_lift2 assms(2,3))
  then show "terminates (\<lambda>n. pols_lapse (Suc n) e t)" by simp
qed

text \<open>All cells of the recursion at one \<open>t\<close>, from \<open>BEF_MAT\<close> at that \<open>t\<close>.\<close>

lemma pols_at_same_t:
  assumes "0 \<le> t" and mat: "terminates (\<lambda>n. pols_if_at n e t ''BEF_MAT'')"
  shows "terminates (\<lambda>n. pols_if_at n e t ''BEF_NB'')"
    and "terminates (\<lambda>n. pols_if_at n e t ''BEF_DECR'')"
    and "terminates (\<lambda>n. pols_death n e t)"
    and "terminates (\<lambda>n. pols_lapse n e t)"
    and "terminates (\<lambda>n. pols_maturity n e t)"
proof -
  show m: "terminates (\<lambda>n. pols_maturity n e t)"
    using assms by (rule pols_maturity_terminates)
  show nb: "terminates (\<lambda>n. pols_if_at n e t ''BEF_NB'')"
    using mat m by (rule pols_if_at_BEF_NB_terminates)
  show decr: "terminates (\<lambda>n. pols_if_at n e t ''BEF_DECR'')"
    using assms(1) nb by (rule pols_if_at_BEF_DECR_terminates)
  show death: "terminates (\<lambda>n. pols_death n e t)"
    using assms(1) decr by (rule pols_death_terminates)
  show "terminates (\<lambda>n. pols_lapse n e t)"
    using assms(1) decr death by (rule pols_lapse_terminates)
qed

lemma pols_if_at_BEF_MAT_terminates:
  "0 \<le> t \<Longrightarrow> terminates (\<lambda>n. pols_if_at n e t ''BEF_MAT'')"
proof (induction "nat t" arbitrary: t)
  case 0
  then have "t = 0" by simp
  then show ?case by (simp add: pols_if_at_BEF_MAT_0)
next
  case (Suc k)
  then have t: "t \<noteq> 0" "0 \<le> t - 1" "k = nat (t - 1)" by simp_all
  from Suc.hyps(1)[OF t(3) t(2)]
  have mat: "terminates (\<lambda>n. pols_if_at n e (t - 1) ''BEF_MAT'')" .
  from t(1) pols_at_same_t(2,4,3)[OF t(2) mat] show ?case
    by (rule pols_if_at_BEF_MAT_step)
qed

text \<open>
  Claim C1. For every \<open>t \<ge> 0\<close> and each of the three recognized timings the evaluation
  of \<open>pols_if_at(t, timing)\<close> terminates: it has one outcome at every large enough depth
  bound. \<open>"BEF_MAT"\<close> at \<open>t = 0\<close> is \<open>pols_if_init()\<close>, which calls no cell of the
  recursion; \<open>"BEF_MAT"\<close> at \<open>t > 0\<close> goes to \<open>t - 1\<close>; \<open>"BEF_NB"\<close> and \<open>"BEF_DECR"\<close> go to
  \<open>"BEF_MAT"\<close> at the same \<open>t\<close>.
\<close>

theorem pols_if_at_terminates:
  assumes "0 \<le> t" and "timing \<in> {''BEF_MAT'', ''BEF_NB'', ''BEF_DECR''}"
  shows "terminates (\<lambda>n. pols_if_at n e t timing)
       \<and> pols_if_at (Suc n) e 0 ''BEF_MAT'' = pols_if_init n e
       \<and> terminates (\<lambda>n. pols_if_init n e)"
proof (intro conjI)
  from assms(1) have mat: "terminates (\<lambda>n. pols_if_at n e t ''BEF_MAT'')"
    by (rule pols_if_at_BEF_MAT_terminates)
  from assms(2) mat pols_at_same_t(1,2)[OF assms(1) mat]
  show "terminates (\<lambda>n. pols_if_at n e t timing)" by auto
  show "pols_if_at (Suc n) e 0 ''BEF_MAT'' = pols_if_init n e" by simp
  show "terminates (\<lambda>n. pols_if_init n e)"
    by (rule terminatesI) (rule pols_if_init_settles)
qed

text \<open>
  In the example, at \<open>t = 0\<close> the first model point is in force with its 100 policies, the
  second is not yet issued.
\<close>

theorem pols_if_at_terminates_witness:
  "terminates (\<lambda>n. pols_if_at n proj_example 2 ''BEF_DECR'')
   \<and> pols_if_at 6 proj_example 0 ''BEF_DECR'' = Some (Inr [Fin 100, Fin 0])"
proof -
  have h: "(0::int) \<le> 2" "''BEF_DECR'' \<in> {''BEF_MAT'', ''BEF_NB'', ''BEF_DECR''}"
    by simp_all
  have v: "pols_if_at 6 proj_example 0 ''BEF_DECR'' = Some (Inr [Fin 100, Fin 0])"
    by (simp add: eval_nat_numeral pols_if_init_def pols_new_biz_def policy_term_def
        mort_table_last_age_def lift2_def map_cell_def bind_cell_def ret_def
        vadd_def vsub_def vmul_def fsub_def indicator_def and_then_def
        proj_example_def model_point_def model_point_table_ext_def)
  from pols_if_at_terminates[OF h] v show ?thesis by blast
qed

subsection \<open>The net amount at risk and the cost of insurance\<close>

lemma bind_cell_returns:
  "bind_cell m f = Some (Inr y) \<Longrightarrow> \<exists>x. m = Some (Inr x) \<and> f x = Some (Inr y)"
  by (auto simp: bind_cell_def split: option.splits sum.splits)

lemma map_cell_returns:
  "map_cell g m = Some (Inr y) \<Longrightarrow> \<exists>x. m = Some (Inr x) \<and> y = g x"
  by (auto simp: map_cell_def ret_def dest!: bind_cell_returns)

lemma lift2_returns:
  "lift2 g a b = Some (Inr z) \<Longrightarrow>
   \<exists>x y. a = Some (Inr x) \<and> b = Some (Inr y) \<and> z = g x y"
  by (auto simp: lift2_def ret_def dest!: bind_cell_returns)

text \<open>The depth bound has no part in what \<open>duration_mth\<close> returns.\<close>

lemma duration_mth_deeper:
  "duration_mth n e t = Some r \<Longrightarrow> duration_mth (n + k) e t = Some r"
proof (induction n arbitrary: t r)
  case 0
  then show ?case by simp
next
  case (Suc n)
  show ?case
  proof (cases "t = 0")
    case True
    with Suc.prems show ?thesis by simp
  next
    case False
    with Suc.prems obtain x where x: "duration_mth n e (t - 1) = Some x"
      by (cases "duration_mth n e (t - 1)") (auto simp: map_cell_def bind_cell_def)
    from Suc.IH[OF x] have "duration_mth (n + k) e (t - 1) = Some x" .
    with False Suc.prems x show ?thesis by simp
  qed
qed

lemma duration_mth_agree:
  assumes "duration_mth n e t = Some r" and "duration_mth m e t = Some r'"
  shows "duration_mth n e t = duration_mth m e t"
proof -
  from duration_mth_deeper[OF assms(1), of m] have "duration_mth (n + m) e t = Some r" .
  moreover from duration_mth_deeper[OF assms(2), of n] have "duration_mth (m + n) e t = Some r'" .
  ultimately have "r = r'" by (simp add: add.commute)
  with assms show ?thesis by simp
qed

lemma mort_rate_needs_duration:
  "mort_rate n e t = Some r \<Longrightarrow> \<exists>d. duration_mth n e t = Some d"
  by (cases "duration_mth n e t")
     (simp_all add: mort_rate_def age_def duration_def map_cell_def bind_cell_def)

lemma mort_rate_agree:
  assumes "mort_rate n e t = Some r" and "mort_rate m e t = Some r'"
  shows "r = r'"
proof -
  from assms obtain d d' where "duration_mth n e t = Some d" "duration_mth m e t = Some d'"
    by (blast dest: mort_rate_needs_duration)
  then have "duration_mth n e t = duration_mth m e t" by (rule duration_mth_agree)
  then have "mort_rate n e t = mort_rate m e t"
    by (simp add: mort_rate_def age_def duration_def)
  with assms show ?thesis by simp
qed

lemma mort_rate_mth_agree:
  assumes "mort_rate_mth n e t = Some (Inr q)" and "mort_rate_mth m e t = Some (Inr q')"
  shows "q = q'"
proof -
  from assms obtain x x' where x: "mort_rate n e t = Some (Inr x)" "q = monthly x"
    and x': "mort_rate m e t = Some (Inr x')" "q' = monthly x'"
    unfolding mort_rate_mth_def by (blast dest: map_cell_returns)
  from mort_rate_agree[OF x(1) x'(1)] have "x = x'" by simp
  with x(2) x'(2) show ?thesis by simp
qed

text \<open>Signs of the results of the operations, on finite numbers without rounding.\<close>

lemma ge_zero_not_lt_zero: "ge_zero x \<Longrightarrow> \<not> lt_zero x"
  by (cases x) simp_all

lemma not_lt_zero_iff: "\<not> lt_zero x \<longleftrightarrow> x = NaN \<or> ge_zero x"
  by (cases x) auto

lemma np_maximum_0_NaN: "np_maximum x (Fin 0) = NaN \<longleftrightarrow> x = NaN"
  by (cases x) simp_all

lemma np_maximum_0_ge_zero: "x \<noteq> NaN \<Longrightarrow> ge_zero (np_maximum x (Fin 0))"
  by (cases x) simp_all

lemma np_maximum_0_not_lt_zero: "\<not> lt_zero (np_maximum x (Fin 0))"
  by (cases x) simp_all

lemma fmul_not_lt_zero:
  "\<not> lt_zero a \<Longrightarrow> \<not> lt_zero b \<Longrightarrow> \<not> lt_zero (fmul Fin a b)"
  by (cases a; cases b)
     (simp_all add: inf_of_sign_def not_less mult_nonneg_nonneg zero_less_mult_iff
        split: if_splits)

lemma monthly_rate_not_lt_zero:
  assumes "is_finite x" and "ge_zero x"
  shows "\<not> lt_zero (fsub Fin (Fin 1) (np_power (fsub Fin (Fin 1) x) (1 / 12)))"
proof -
  from assms obtain r where x: "x = Fin r" and r: "0 \<le> r" by (cases x) simp_all
  show ?thesis
  proof (cases "1 - r < 0")
    case True
    with x show ?thesis by (simp add: fsub_def)
  next
    case False
    with r have "(1 - r) powr (1 / 12) \<le> 1 powr (1 / 12)"
      by (intro powr_mono2) simp_all
    with x False show ?thesis by (simp add: fsub_def)
  qed
qed

lemma list_all_map2:
  assumes "list_all P xs" and "list_all Q ys" and "\<And>x y. P x \<Longrightarrow> Q y \<Longrightarrow> R (f x y)"
  shows "list_all R (map2 f xs ys)"
  using assms(1,2)
proof (induction xs arbitrary: ys)
  case Nil
  then show ?case by simp
next
  case (Cons x xs)
  then show ?case by (cases ys) (simp_all add: assms(3))
qed

lemma monthly_not_lt_zero:
  "list_all (\<lambda>x. is_finite x \<and> ge_zero x) q \<Longrightarrow> list_all (\<lambda>x. \<not> lt_zero x) (monthly q)"
  by (induction q) (simp_all add: monthly_def monthly_rate_not_lt_zero)

text \<open>
  The net amount at risk is the floor at \<open>0\<close> of the sum assured less the account value
  before fees, as that cell returns it one level deeper.
\<close>

lemma net_amt_at_risk_returns:
  assumes "net_amt_at_risk n e t = Some (Inr v)"
  shows "\<exists>av. av_pp_at (n - 1) e t ''BEF_FEE'' = Some (Inr av)
              \<and> v = map (\<lambda>x. np_maximum x (Fin 0)) (vsub (sum_assured e) av)"
proof (cases n)
  case 0
  with assms show ?thesis by simp
next
  case (Suc m)
  with assms show ?thesis by (auto dest: map_cell_returns)
qed

lemma floor_at_zero:
  "list_all (\<lambda>(x, d). (x = NaN) = (d = NaN) \<and> (d \<noteq> NaN \<longrightarrow> ge_zero x))
     (zip (map (\<lambda>x. np_maximum x (Fin 0)) ds) ds)"
  by (induction ds) (simp_all add: np_maximum_0_NaN np_maximum_0_ge_zero)

lemma net_amt_at_risk_not_lt_zero:
  assumes "net_amt_at_risk n e t = Some (Inr v)"
  shows "list_all (\<lambda>x. \<not> lt_zero x) v"
proof -
  from net_amt_at_risk_returns[OF assms] obtain av
    where "v = map (\<lambda>x. np_maximum x (Fin 0)) (vsub (sum_assured e) av)" by blast
  then show ?thesis by (simp add: list_all_iff np_maximum_0_not_lt_zero)
qed

lemma coi_pp_not_lt_zero:
  assumes "coi_pp n e t = Some (Inr c)" and "mort_rate_mth m e t = Some (Inr q)"
    and "list_all (\<lambda>x. \<not> lt_zero x) q"
  shows "list_all (\<lambda>x. \<not> lt_zero x) c"
proof (cases n)
  case 0
  with assms(1) show ?thesis by simp
next
  case (Suc k)
  with assms(1) obtain a r where a: "coi_av k e t = Some (Inr a)"
    and r: "net_amt_at_risk k e t = Some (Inr r)" and c: "c = vmul a r"
    by (auto dest: lift2_returns)
  from a obtain q' where q': "mort_rate_mth k e t = Some (Inr q')"
    and aq: "a = smul (Fin 1.1) q'"
    unfolding coi_av_def by (auto dest: map_cell_returns)
  from mort_rate_mth_agree[OF q' assms(2)] have "q' = q" .
  with assms(3) aq have a': "list_all (\<lambda>x. \<not> lt_zero x) a"
    by (simp add: smul_def list_all_iff fmul_not_lt_zero)
  from a' net_amt_at_risk_not_lt_zero[OF r] show ?thesis
    unfolding c vmul_def by (rule list_all_map2) (rule fmul_not_lt_zero)
qed

lemma coi_pp_not_lt_zero_annual:
  assumes "coi_pp n e t = Some (Inr c)" and "mort_rate m e t = Some (Inr q0)"
    and "list_all (\<lambda>x. is_finite x \<and> ge_zero x) q0"
  shows "list_all (\<lambda>x. \<not> lt_zero x) c"
proof (cases n)
  case 0
  with assms(1) show ?thesis by simp
next
  case (Suc k)
  with assms(1) obtain a where "coi_av k e t = Some (Inr a)"
    by (auto dest: lift2_returns)
  then obtain q where q: "mort_rate_mth k e t = Some (Inr q)"
    unfolding coi_av_def by (auto dest: map_cell_returns)
  then obtain x where x: "mort_rate k e t = Some (Inr x)" and m: "q = monthly x"
    unfolding mort_rate_mth_def by (auto dest: map_cell_returns)
  from mort_rate_agree[OF x assms(2)] have "x = q0" by simp
  with m assms(3) have "list_all (\<lambda>x. \<not> lt_zero x) q" by (simp add: monthly_not_lt_zero)
  with assms(1) q show ?thesis by (rule coi_pp_not_lt_zero)
qed

lemma premium_pp_terminates:
  assumes "0 \<le> t"
  shows "terminates (\<lambda>n. premium_pp n e t)"
  unfolding premium_pp_def ret_def
  by (rule terminates_bind[OF duration_mth_terminates[OF assms]],
      rule terminates_bind[OF duration_mth_terminates[OF assms]],
      rule terminates_bind[OF terminates_const],
      rule terminates_const)

lemma prem_to_av_pp_terminates:
  assumes "0 \<le> t"
  shows "terminates (\<lambda>n. prem_to_av_pp n e t)"
  unfolding prem_to_av_pp_def by (rule terminates_map[OF premium_pp_terminates[OF assms]])

lemma coi_av_terminates:
  assumes "0 \<le> t"
  shows "terminates (\<lambda>n. coi_av n e t)"
  unfolding coi_av_def by (rule terminates_map[OF mort_rate_mth_terminates[OF assms]])

lemma av_pp_at_BEF_PREM_0: "terminates (\<lambda>n. av_pp_at n e 0 ''BEF_PREM'')"
  by (rule terminates_Suc) (simp add: ret_def terminates_const)

lemma av_pp_at_BEF_PREM_step:
  assumes "t \<noteq> 0"
    and "terminates (\<lambda>n. av_pp_at n e (t - 1) ''BEF_INV'')"
    and "terminates (\<lambda>n. inv_income_pp n e (t - 1))"
  shows "terminates (\<lambda>n. av_pp_at n e t ''BEF_PREM'')"
proof (rule terminates_Suc)
  have "terminates (\<lambda>n. lift2 vadd (av_pp_at n e (t - 1) ''BEF_INV'')
          (inv_income_pp n e (t - 1)))"
    by (intro terminates_lift2 assms(2,3))
  with assms(1) show "terminates (\<lambda>n. av_pp_at (Suc n) e t ''BEF_PREM'')" by simp
qed

lemma av_pp_at_BEF_FEE_terminates:
  assumes "0 \<le> t" and "terminates (\<lambda>n. av_pp_at n e t ''BEF_PREM'')"
  shows "terminates (\<lambda>n. av_pp_at n e t ''BEF_FEE'')"
proof (rule terminates_Suc)
  have "terminates (\<lambda>n. lift2 vadd (av_pp_at n e t ''BEF_PREM'') (prem_to_av_pp n e t))"
    by (intro terminates_lift2 assms(2) prem_to_av_pp_terminates[OF assms(1)])
  then show "terminates (\<lambda>n. av_pp_at (Suc n) e t ''BEF_FEE'')" by simp
qed

lemma maint_fee_pp_terminates:
  assumes "terminates (\<lambda>n. av_pp_at n e t ''BEF_FEE'')"
  shows "terminates (\<lambda>n. maint_fee_pp n e t)"
proof (rule terminates_Suc)
  have "terminates (\<lambda>n. map_cell (smul maint_fee_av) (av_pp_at n e t ''BEF_FEE''))"
    by (rule terminates_map[OF assms])
  then show "terminates (\<lambda>n. maint_fee_pp (Suc n) e t)" by simp
qed

lemma net_amt_at_risk_terminates_from:
  assumes "terminates (\<lambda>n. av_pp_at n e t ''BEF_FEE'')"
  shows "terminates (\<lambda>n. net_amt_at_risk n e t)"
proof (rule terminates_Suc)
  have "terminates (\<lambda>n.
          map_cell (\<lambda>av. map (\<lambda>x. np_maximum x (Fin 0)) (vsub (sum_assured e) av))
            (av_pp_at n e t ''BEF_FEE''))"
    by (rule terminates_map[OF assms])
  then show "terminates (\<lambda>n. net_amt_at_risk (Suc n) e t)" by simp
qed

lemma coi_pp_terminates_from:
  assumes "0 \<le> t" and "terminates (\<lambda>n. net_amt_at_risk n e t)"
  shows "terminates (\<lambda>n. coi_pp n e t)"
proof (rule terminates_Suc)
  have "terminates (\<lambda>n. lift2 vmul (coi_av n e t) (net_amt_at_risk n e t))"
    by (intro terminates_lift2 assms(2) coi_av_terminates[OF assms(1)])
  then show "terminates (\<lambda>n. coi_pp (Suc n) e t)" by simp
qed

lemma av_pp_at_BEF_INV_terminates:
  assumes "terminates (\<lambda>n. av_pp_at n e t ''BEF_FEE'')"
    and "terminates (\<lambda>n. maint_fee_pp n e t)" and "terminates (\<lambda>n. coi_pp n e t)"
  shows "terminates (\<lambda>n. av_pp_at n e t ''BEF_INV'')"
proof (rule terminates_Suc)
  have "terminates (\<lambda>n. lift2 vsub
          (lift2 vsub (av_pp_at n e t ''BEF_FEE'') (maint_fee_pp n e t)) (coi_pp n e t))"
    by (intro terminates_lift2 assms)
  then show "terminates (\<lambda>n. av_pp_at (Suc n) e t ''BEF_INV'')" by simp
qed

lemma inv_income_pp_terminates:
  assumes "terminates (\<lambda>n. av_pp_at n e t ''BEF_INV'')"
  shows "terminates (\<lambda>n. inv_income_pp n e t)"
proof (rule terminates_Suc)
  have "terminates (\<lambda>n. bind_cell (Some (inv_return_mth e t))
          (\<lambda>r. map_cell (smul r) (av_pp_at n e t ''BEF_INV'')))"
    by (rule terminates_bind[OF terminates_const]) (rule terminates_map[OF assms])
  then show "terminates (\<lambda>n. inv_income_pp (Suc n) e t)" by simp
qed

lemma av_at_same_t:
  assumes "0 \<le> t" and prem: "terminates (\<lambda>n. av_pp_at n e t ''BEF_PREM'')"
  shows "terminates (\<lambda>n. av_pp_at n e t ''BEF_FEE'')"
    and "terminates (\<lambda>n. net_amt_at_risk n e t)"
    and "terminates (\<lambda>n. coi_pp n e t)"
    and "terminates (\<lambda>n. av_pp_at n e t ''BEF_INV'')"
    and "terminates (\<lambda>n. inv_income_pp n e t)"
proof -
  show fee: "terminates (\<lambda>n. av_pp_at n e t ''BEF_FEE'')"
    using assms by (rule av_pp_at_BEF_FEE_terminates)
  show naar: "terminates (\<lambda>n. net_amt_at_risk n e t)"
    using fee by (rule net_amt_at_risk_terminates_from)
  show coi: "terminates (\<lambda>n. coi_pp n e t)"
    using assms(1) naar by (rule coi_pp_terminates_from)
  show inv: "terminates (\<lambda>n. av_pp_at n e t ''BEF_INV'')"
    using fee maint_fee_pp_terminates[OF fee] coi by (rule av_pp_at_BEF_INV_terminates)
  show "terminates (\<lambda>n. inv_income_pp n e t)"
    using inv by (rule inv_income_pp_terminates)
qed

lemma av_pp_at_BEF_PREM_terminates:
  "0 \<le> t \<Longrightarrow> terminates (\<lambda>n. av_pp_at n e t ''BEF_PREM'')"
proof (induction "nat t" arbitrary: t)
  case 0
  then have "t = 0" by simp
  then show ?case by (simp add: av_pp_at_BEF_PREM_0)
next
  case (Suc k)
  then have t: "t \<noteq> 0" "0 \<le> t - 1" "k = nat (t - 1)" by simp_all
  from Suc.hyps(1)[OF t(3) t(2)]
  have prem: "terminates (\<lambda>n. av_pp_at n e (t - 1) ''BEF_PREM'')" .
  from t(1) av_at_same_t(4,5)[OF t(2) prem] show ?case
    by (rule av_pp_at_BEF_PREM_step)
qed


text \<open>
  Claim C10, as amended. For every \<open>t \<ge> 0\<close> the evaluation of \<open>net_amt_at_risk(t)\<close>
  terminates. An element of what it returns is never negative: it is NaN where the sum
  assured less \<open>av_pp_at(t, "BEF_FEE")\<close> is NaN, and \<open>\<ge> 0\<close> everywhere else, by the maximum
  with \<open>0\<close>. An element of \<open>coi_pp(t)\<close> is never negative (it is \<open>\<ge> 0\<close> or NaN) when the
  mortality rate is nonnegative: the annual rate \<open>mort_rate(t)\<close>, if finite, or the
  monthly rate \<open>mort_rate_mth(t)\<close> made of it, which \<open>coi_pp\<close> multiplies by \<open>1.1\<close> and by
  the net amount at risk.
\<close>

theorem net_amt_at_risk_nonnegative:
  "(0 \<le> t \<longrightarrow> terminates (\<lambda>n. net_amt_at_risk n e t))
   \<and> (net_amt_at_risk n e t = Some (Inr v) \<longrightarrow>
        list_all (\<lambda>x. \<not> lt_zero x) v
        \<and> (\<exists>av. av_pp_at (n - 1) e t ''BEF_FEE'' = Some (Inr av)
              \<and> list_all (\<lambda>(x, d). (x = NaN) = (d = NaN) \<and> (d \<noteq> NaN \<longrightarrow> ge_zero x))
                   (zip v (vsub (sum_assured e) av))))
   \<and> (coi_pp n' e t = Some (Inr c) \<longrightarrow> mort_rate m e t = Some (Inr q0) \<longrightarrow>
        list_all (\<lambda>x. is_finite x \<and> ge_zero x) q0 \<longrightarrow> list_all (\<lambda>x. \<not> lt_zero x) c)
   \<and> (coi_pp n' e t = Some (Inr c) \<longrightarrow> mort_rate_mth m e t = Some (Inr q) \<longrightarrow>
        list_all ge_zero q \<longrightarrow> list_all (\<lambda>x. \<not> lt_zero x) c)"
proof (intro conjI impI)
  assume "0 \<le> t"
  then show "terminates (\<lambda>n. net_amt_at_risk n e t)"
    using av_at_same_t(2) av_pp_at_BEF_PREM_terminates by blast
next
  assume "net_amt_at_risk n e t = Some (Inr v)"
  then show "list_all (\<lambda>x. \<not> lt_zero x) v" by (rule net_amt_at_risk_not_lt_zero)
next
  assume "net_amt_at_risk n e t = Some (Inr v)"
  then obtain av where av: "av_pp_at (n - 1) e t ''BEF_FEE'' = Some (Inr av)"
    and v: "v = map (\<lambda>x. np_maximum x (Fin 0)) (vsub (sum_assured e) av)"
    using net_amt_at_risk_returns by blast
  from floor_at_zero[of "vsub (sum_assured e) av"] v
  have "list_all (\<lambda>(x, d). (x = NaN) = (d = NaN) \<and> (d \<noteq> NaN \<longrightarrow> ge_zero x))
          (zip v (vsub (sum_assured e) av))" by simp
  with av show "\<exists>av. av_pp_at (n - 1) e t ''BEF_FEE'' = Some (Inr av)
      \<and> list_all (\<lambda>(x, d). (x = NaN) = (d = NaN) \<and> (d \<noteq> NaN \<longrightarrow> ge_zero x))
           (zip v (vsub (sum_assured e) av))" by blast
next
  assume "coi_pp n' e t = Some (Inr c)" "mort_rate m e t = Some (Inr q0)"
    "list_all (\<lambda>x. is_finite x \<and> ge_zero x) q0"
  then show "list_all (\<lambda>x. \<not> lt_zero x) c" by (rule coi_pp_not_lt_zero_annual)
next
  assume c: "coi_pp n' e t = Some (Inr c)" and q: "mort_rate_mth m e t = Some (Inr q)"
    and "list_all ge_zero q"
  then have "list_all (\<lambda>x. \<not> lt_zero x) q" by (simp add: list_all_iff ge_zero_not_lt_zero)
  with c q show "list_all (\<lambda>x. \<not> lt_zero x) c" by (rule coi_pp_not_lt_zero)
qed

text \<open>
  In the example at \<open>t = 0\<close>: the account values before fees are 509 and 0, the sums
  assured 1000 and 2000; the annual and the monthly mortality rates are 1 and 0.
\<close>

lemmas cell_evaluation =
  lift2_def map_cell_def bind_cell_def ret_def raise_def and_then_def
  vadd_def vsub_def vmul_def smul_def fsub_def indicator_def
  model_point_def model_point_table_ext_def

lemmas proj_example_evaluation =
  prem_to_av_pp_def premium_pp_def policy_term_def mort_table_last_age_def av_pp_init_def
  sum_assured_def load_prem_rate_def coi_av_def mort_rate_mth_def mort_rate_def age_def
  duration_def age_at_entry_def monthly_def reindex_def mort_table_reindexed_def
  proj_example_def

lemma proj_example_av_BEF_FEE:
  "av_pp_at 3 proj_example 0 ''BEF_FEE'' = Some (Inr [Fin 509, Fin 0])"
  by (simp add: eval_nat_numeral cell_evaluation proj_example_evaluation)

lemma proj_example_net_amt_at_risk:
  "net_amt_at_risk 4 proj_example 0 = Some (Inr [Fin 491, Fin 2000])"
  by (simp add: eval_nat_numeral cell_evaluation proj_example_evaluation)

lemma proj_example_mort_rate:
  "mort_rate 1 proj_example 0 = Some (Inr [Fin 1, Fin 0])"
  by (simp add: cell_evaluation proj_example_evaluation)

lemma proj_example_mort_rate_mth:
  "mort_rate_mth 1 proj_example 0 = Some (Inr [Fin 1, Fin 0])"
  by (simp add: cell_evaluation proj_example_evaluation)

lemma proj_example_coi_pp:
  "coi_pp 5 proj_example 0 = Some (Inr [Fin (5401 / 10), Fin 0])"
  by (simp add: eval_nat_numeral cell_evaluation proj_example_evaluation)

theorem net_amt_at_risk_nonnegative_witness:
  "terminates (\<lambda>n. net_amt_at_risk n proj_example 0)
   \<and> av_pp_at 3 proj_example 0 ''BEF_FEE'' = Some (Inr [Fin 509, Fin 0])
   \<and> net_amt_at_risk 4 proj_example 0 = Some (Inr [Fin 491, Fin 2000])
   \<and> mort_rate 1 proj_example 0 = Some (Inr [Fin 1, Fin 0])
   \<and> mort_rate_mth 1 proj_example 0 = Some (Inr [Fin 1, Fin 0])
   \<and> coi_pp 5 proj_example 0 = Some (Inr [Fin (5401 / 10), Fin 0])
   \<and> list_all (\<lambda>x. \<not> lt_zero x) [Fin 491, Fin 2000]
   \<and> list_all (\<lambda>x. \<not> lt_zero x) [Fin (5401 / 10), Fin 0]"
proof -
  have q: "list_all (\<lambda>x. is_finite x \<and> ge_zero x) [Fin 1, Fin 0]"
    "list_all ge_zero [Fin 1, Fin 0]" by simp_all
  from net_amt_at_risk_nonnegative
         [of 0 proj_example 4 "[Fin 491, Fin 2000]" 5 "[Fin (5401 / 10), Fin 0]" 1
             "[Fin 1, Fin 0]" "[Fin 1, Fin 0]"]
    proj_example_av_BEF_FEE proj_example_net_amt_at_risk proj_example_mort_rate
    proj_example_mort_rate_mth proj_example_coi_pp q
  show ?thesis by simp
qed

text \<open>
  The claim as stated fails where a NaN or an infinity comes in. With the mortality
  rate 2 at the age of the first model point, \<open>(1 - 2) ** (1/12)\<close> is NaN; so are
  \<open>coi_pp(0)\<close>, the account value after it and \<open>net_amt_at_risk(1)\<close>, and NaN is not
  \<open>\<ge> 0\<close>. With the mortality rate \<open>+inf\<close>, which is \<open>\<ge> 0\<close>, the monthly rate is
  \<open>1 - (-inf) ** (1/12) = -inf\<close> and \<open>coi_pp(0)\<close> is \<open>-inf\<close>.
\<close>

lemmas proj_nan_evaluation =
  proj_example_evaluation proj_nan_def proj_inf_def with_mort_table_def
  inv_return_mth_def inv_return_table_def np_get_def scen_id_def maint_fee_av_def

lemma proj_nan_mort_rate:
  "mort_rate 1 proj_nan 0 = Some (Inr [Fin 2, Fin 0])"
  by (simp add: cell_evaluation proj_nan_evaluation)

lemma proj_nan_coi_pp:
  "coi_pp 5 proj_nan 0 = Some (Inr [NaN, Fin 0])"
  by (simp add: eval_nat_numeral cell_evaluation proj_nan_evaluation)

lemma proj_nan_av_BEF_FEE:
  "av_pp_at 9 proj_nan 1 ''BEF_FEE'' = Some (Inr [NaN, Fin 0])"
  by (simp add: eval_nat_numeral cell_evaluation proj_nan_evaluation)

lemma proj_nan_net_amt_at_risk:
  "net_amt_at_risk 10 proj_nan 1 = Some (Inr [NaN, Fin 2000])"
  by (simp add: eval_nat_numeral cell_evaluation proj_nan_evaluation)

lemma proj_inf_mort_rate:
  "mort_rate 1 proj_inf 0 = Some (Inr [PosInf, Fin 0])"
  by (simp add: cell_evaluation proj_nan_evaluation)

lemma proj_inf_coi_pp:
  "coi_pp 5 proj_inf 0 = Some (Inr [NegInf, Fin 0])"
  by (simp add: eval_nat_numeral cell_evaluation proj_nan_evaluation inf_of_sign_def)

theorem net_amt_at_risk_nonnegative_counterexample:
  "mort_rate 1 proj_nan 0 = Some (Inr [Fin 2, Fin 0])
   \<and> coi_pp 5 proj_nan 0 = Some (Inr [NaN, Fin 0])
   \<and> av_pp_at 9 proj_nan 1 ''BEF_FEE'' = Some (Inr [NaN, Fin 0])
   \<and> net_amt_at_risk 10 proj_nan 1 = Some (Inr [NaN, Fin 2000])
   \<and> \<not> list_all ge_zero [NaN, Fin 2000]
   \<and> mort_rate 1 proj_inf 0 = Some (Inr [PosInf, Fin 0])
   \<and> list_all ge_zero [PosInf, Fin 0]
   \<and> coi_pp 5 proj_inf 0 = Some (Inr [NegInf, Fin 0])
   \<and> lt_zero NegInf"
  using proj_nan_mort_rate proj_nan_coi_pp proj_nan_av_BEF_FEE proj_nan_net_amt_at_risk
    proj_inf_mort_rate proj_inf_coi_pp
  by simp


section \<open>The evaluation engine of the specification\<close>

text \<open>
  The cells above are run by the modelx engine, whose code is not part of this
  repository's sources. The specification describes the engine it requires (sections
  3, 4 and 7); the definitions of this section follow those words. A cell function can
  do nothing but compute, request another key through its context, read a reference, or
  fail, so it is a tree of requests. The type of values is a parameter: the engine
  never looks into one.
\<close>

text \<open>
  Modelled from the spec: the \<open>ArgumentTuple\<close> (section 3), "an ordered, fixed-arity
  sequence of scalar arguments (integers, strings/enums)", and the cache key, a cell name
  with an argument tuple.
\<close>

datatype arg = IntArg int | StrArg string

type_synonym key = "string \<times> arg list"

text \<open>Modelled from the spec: the error taxonomy of section 7.\<close>

datatype eval_error =
    UnknownCellError string
  | ArgumentArityError key
  | CircularEvaluationError "key list"
  | AlignmentError
  | InvalidTimingOrKindError string
  | ReferenceNotFoundError string

text \<open>
  Modelled from the spec: the cell function signature \<open>(context, *args) -> Value\<close> of
  section 6, where the context exposes \<open>eval(cell_name, *args)\<close> and \<open>ref(name)\<close>: the
  function returns, fails, or asks the context and goes on with the answer.
\<close>

datatype 'v cell_prog =
    Return 'v
  | Raise eval_error
  | Eval key "'v \<Rightarrow> 'v cell_prog"
  | Ref string "'v \<Rightarrow> 'v cell_prog"

text \<open>
  Modelled from the spec: the \<open>CellDefinition\<close> and the Cell Registry of section 4.2
  (\<open>register(name, function, arity)\<close>, \<open>resolve(name)\<close>), and the Reference Store of
  section 4.4.
\<close>

record 'v cell_def =
  arity :: nat
  func :: "arg list \<Rightarrow> 'v cell_prog"

type_synonym 'v registry = "string \<Rightarrow> 'v cell_def option"
type_synonym 'v ref_store = "string \<Rightarrow> 'v option"

text \<open>
  Modelled from the spec: the run context of section 9, owning the Value Table (the
  cache of section 4.1) and the in-progress markers of section 4.3, kept as the chain of
  keys under computation, innermost first. \<open>calls\<close> is the instrumentation of section 8
  ("verified by instrumenting call counts"): how often the function of a key was invoked.
\<close>

record 'v run_state =
  cache :: "key \<Rightarrow> 'v option"
  in_progress :: "key list"
  calls :: "key \<Rightarrow> nat"

definition initial_state :: "'v run_state" where
  "initial_state = \<lparr> cache = Map.empty, in_progress = [], calls = (\<lambda>k. 0) \<rparr>"

type_synonym 'v outcome = "(eval_error + 'v) \<times> 'v run_state"

text \<open>
  Modelled from the spec: \<open>get_or_compute\<close> of section 4.1 with the algorithm of section
  4.3: "if the key is already cached, return it. If the key is currently in-progress,
  fail with \<open>CircularEvaluationError\<close> naming the chain. Otherwise mark in-progress,
  invoke the cell function (which may recursively call \<open>evaluate\<close> on other keys),
  unmark, store, and return." \<open>resolve\<close> fails with \<open>UnknownCellError\<close> (4.2), a wrong
  arity with \<open>ArgumentArityError\<close> (4.3), and "a failed key leaves no cache entry" (7).
  \<open>eval_key\<close> is what \<open>context.eval\<close> calls; \<open>run_prog\<close> runs a cell function.

  The first argument bounds the depth of nested calls; \<open>None\<close> says that the bound was
  reached, so an evaluation that never ends is \<open>None\<close> at every depth.
\<close>

fun eval_key :: "nat \<Rightarrow> 'v registry \<Rightarrow> 'v ref_store \<Rightarrow> 'v run_state \<Rightarrow> key \<Rightarrow> 'v outcome option"
and run_prog :: "nat \<Rightarrow> 'v registry \<Rightarrow> 'v ref_store \<Rightarrow> 'v run_state \<Rightarrow> 'v cell_prog \<Rightarrow> 'v outcome option"
where
  "eval_key 0 reg refs s k = None"
| "eval_key (Suc n) reg refs s k =
     (case cache s k of
        Some v \<Rightarrow> Some (Inr v, s)
      | None \<Rightarrow>
          if k \<in> set (in_progress s)
          then Some (Inl (CircularEvaluationError (rev (k # in_progress s))), s)
          else (case reg (fst k) of
                  None \<Rightarrow> Some (Inl (UnknownCellError (fst k)), s)
                | Some c \<Rightarrow>
                    if length (snd k) \<noteq> arity c then Some (Inl (ArgumentArityError k), s)
                    else (case run_prog n reg refs
                                 (s\<lparr>in_progress := k # in_progress s,
                                    calls := (calls s)(k := Suc (calls s k))\<rparr>)
                                 (func c (snd k)) of
                            None \<Rightarrow> None
                          | Some (Inl e, s') \<Rightarrow> Some (Inl e, s')
                          | Some (Inr v, s') \<Rightarrow>
                              Some (Inr v, s'\<lparr>in_progress := tl (in_progress s'),
                                              cache := (cache s')(k \<mapsto> v)\<rparr>))))"
| "run_prog 0 reg refs s p = None"
| "run_prog (Suc n) reg refs s (Return v) = Some (Inr v, s)"
| "run_prog (Suc n) reg refs s (Raise e) = Some (Inl e, s)"
| "run_prog (Suc n) reg refs s (Eval k cont) =
     (case eval_key n reg refs s k of
        None \<Rightarrow> None
      | Some (Inl e, s') \<Rightarrow> Some (Inl e, s')
      | Some (Inr v, s') \<Rightarrow> run_prog n reg refs s' (cont v))"
| "run_prog (Suc n) reg refs s (Ref name cont) =
     (case refs name of
        None \<Rightarrow> Some (Inl (ReferenceNotFoundError name), s)
      | Some v \<Rightarrow> run_prog n reg refs s (cont v))"

text \<open>
  Modelled from the spec: the top-level query \<open>evaluate(cell_name, args)\<close> of section 6.
  Every top-level request has a chain of its own (section 4.3: "one chain per
  independent top-level request").
\<close>

definition evaluate :: "nat \<Rightarrow> 'v registry \<Rightarrow> 'v ref_store \<Rightarrow> 'v run_state \<Rightarrow> key \<Rightarrow> 'v outcome option" where
  "evaluate n reg refs s k = eval_key n reg refs (s\<lparr>in_progress := []\<rparr>) k"

text \<open>A run: top-level requests one after the other, on the same cache.\<close>

fun evaluate_all :: "nat \<Rightarrow> 'v registry \<Rightarrow> 'v ref_store \<Rightarrow> 'v run_state \<Rightarrow> key list
    \<Rightarrow> ((eval_error + 'v) list \<times> 'v run_state) option" where
  "evaluate_all n reg refs s [] = Some ([], s)"
| "evaluate_all n reg refs s (k # ks) =
     (case evaluate n reg refs s k of
        None \<Rightarrow> None
      | Some (r, s') \<Rightarrow>
          (case evaluate_all n reg refs s' ks of
             None \<Rightarrow> None
           | Some (rs, s'') \<Rightarrow> Some (r # rs, s'')))"

subsection \<open>The scenarios of the specification\<close>

text \<open>
  Section 8: \<open>balance(t) = balance(t-1) + deposit(t)\<close> with \<open>balance(0) = initial()\<close>,
  \<open>deposit(t) = 10\<close>, \<open>initial() = 100\<close>.
\<close>

definition balance_registry :: "int registry" where
  "balance_registry =
     [''balance'' \<mapsto> \<lparr> arity = 1, func = (\<lambda>args. case args of
          [IntArg t] \<Rightarrow>
            if t = 0 then Eval (''initial'', []) Return
            else Eval (''balance'', [IntArg (t - 1)]) (\<lambda>b.
                 Eval (''deposit'', [IntArg t]) (\<lambda>d. Return (b + d)))
        | _ \<Rightarrow> Raise (ArgumentArityError (''balance'', args))) \<rparr>,
      ''deposit'' \<mapsto> \<lparr> arity = 1, func = (\<lambda>args. Return 10) \<rparr>,
      ''initial'' \<mapsto> \<lparr> arity = 0, func = (\<lambda>args. Return 100) \<rparr>]"

text \<open>
  Section 8: \<open>count_if(t, "A") = count_if(t-1, "B")\<close> and
  \<open>count_if(t, "B") = count_if(t, "A") + 1\<close>, with no base case.
\<close>

definition count_if_key :: "int \<Rightarrow> string \<Rightarrow> key" where
  "count_if_key t x = (''count_if'', [IntArg t, StrArg x])"

definition count_if_registry :: "int registry" where
  "count_if_registry =
     [''count_if'' \<mapsto> \<lparr> arity = 2, func = (\<lambda>args. case args of
          [IntArg t, StrArg x] \<Rightarrow>
            if x = ''A'' then Eval (count_if_key (t - 1) ''B'') Return
            else if x = ''B'' then Eval (count_if_key t ''A'') (\<lambda>v. Return (v + 1))
            else Raise (InvalidTimingOrKindError x)
        | _ \<Rightarrow> Raise (ArgumentArityError (''count_if'', args))) \<rparr>]"

text \<open>The same two cells with \<open>"A"\<close> referring to \<open>"B"\<close> at the same \<open>t\<close>: a cycle.\<close>

definition count_if_same_t_registry :: "int registry" where
  "count_if_same_t_registry =
     [''count_if'' \<mapsto> \<lparr> arity = 2, func = (\<lambda>args. case args of
          [IntArg t, StrArg x] \<Rightarrow>
            if x = ''A'' then Eval (count_if_key t ''B'') Return
            else if x = ''B'' then Eval (count_if_key t ''A'') (\<lambda>v. Return (v + 1))
            else Raise (InvalidTimingOrKindError x)
        | _ \<Rightarrow> Raise (ArgumentArityError (''count_if'', args))) \<rparr>]"

text \<open>The two cells of the scenario with a base case: \<open>count_if(0, "A") = 0\<close>.\<close>

definition count_if_grounded_registry :: "int registry" where
  "count_if_grounded_registry =
     [''count_if'' \<mapsto> \<lparr> arity = 2, func = (\<lambda>args. case args of
          [IntArg t, StrArg x] \<Rightarrow>
            if x = ''A'' then (if t = 0 then Return 0 else Eval (count_if_key (t - 1) ''B'') Return)
            else if x = ''B'' then Eval (count_if_key t ''A'') (\<lambda>v. Return (v + 1))
            else Raise (InvalidTimingOrKindError x)
        | _ \<Rightarrow> Raise (ArgumentArityError (''count_if'', args))) \<rparr>]"

text \<open>A cell that reads a reference; with an empty Reference Store it fails.\<close>

definition broken_registry :: "int registry" where
  "broken_registry = [''rate'' \<mapsto> \<lparr> arity = 0, func = (\<lambda>args. Ref ''rate_table'' Return) \<rparr>]"

text \<open>The state after \<open>evaluate("balance", 3)\<close> on an empty cache.\<close>

definition balance_after :: "int run_state" where
  "balance_after =
     snd (the (evaluate 12 balance_registry Map.empty initial_state (''balance'', [IntArg 3])))"

subsection \<open>One step of the engine\<close>

lemma eval_key_SucE:
  assumes "eval_key (Suc n) reg refs s k = Some (r, s')"
  obtains (hit) v where "cache s k = Some v" "r = Inr v" "s' = s"
  | (circular) "cache s k = None" "k \<in> set (in_progress s)"
      "r = Inl (CircularEvaluationError (rev (k # in_progress s)))" "s' = s"
  | (unknown) "cache s k = None" "k \<notin> set (in_progress s)" "reg (fst k) = None"
      "r = Inl (UnknownCellError (fst k))" "s' = s"
  | (arity) c where "cache s k = None" "k \<notin> set (in_progress s)" "reg (fst k) = Some c"
      "length (snd k) \<noteq> arity c" "r = Inl (ArgumentArityError k)" "s' = s"
  | (failed) c e where "cache s k = None" "k \<notin> set (in_progress s)" "reg (fst k) = Some c"
      "length (snd k) = arity c"
      "run_prog n reg refs (s\<lparr>in_progress := k # in_progress s,
          calls := (calls s)(k := Suc (calls s k))\<rparr>) (func c (snd k)) = Some (Inl e, s')"
      "r = Inl e"
  | (computed) c v s1 where "cache s k = None" "k \<notin> set (in_progress s)" "reg (fst k) = Some c"
      "length (snd k) = arity c"
      "run_prog n reg refs (s\<lparr>in_progress := k # in_progress s,
          calls := (calls s)(k := Suc (calls s k))\<rparr>) (func c (snd k)) = Some (Inr v, s1)"
      "r = Inr v" "s' = s1\<lparr>in_progress := tl (in_progress s1), cache := (cache s1)(k \<mapsto> v)\<rparr>"
proof (cases "cache s k")
  case (Some v)
  with assms have "r = Inr v" "s' = s" by auto
  with Some hit show ?thesis by blast
next
  case None
  note miss = None
  show ?thesis
  proof (cases "k \<in> set (in_progress s)")
    case True
    with assms miss have "r = Inl (CircularEvaluationError (rev (k # in_progress s)))" "s' = s"
      by auto
    with miss True circular show ?thesis by blast
  next
    case False
    note fresh = False
    show ?thesis
    proof (cases "reg (fst k)")
      case None
      with assms miss fresh have "r = Inl (UnknownCellError (fst k))" "s' = s" by auto
      with miss fresh None unknown show ?thesis by blast
    next
      case (Some c)
      note cell = Some
      show ?thesis
      proof (cases "length (snd k) = arity c")
        case False
        with assms miss fresh cell have "r = Inl (ArgumentArityError k)" "s' = s" by auto
        with miss fresh cell False arity show ?thesis by blast
      next
        case True
        let ?s0 = "s\<lparr>in_progress := k # in_progress s,
          calls := (calls s)(k := Suc (calls s k))\<rparr>"
        from assms miss fresh cell True
        have run: "(case run_prog n reg refs ?s0 (func c (snd k)) of
                            None \<Rightarrow> None
                          | Some (Inl e, s') \<Rightarrow> Some (Inl e, s')
                          | Some (Inr v, s') \<Rightarrow>
                              Some (Inr v, s'\<lparr>in_progress := tl (in_progress s'),
                                              cache := (cache s')(k \<mapsto> v)\<rparr>)) = Some (r, s')"
          by simp
        then obtain r1 s1 where r1: "run_prog n reg refs ?s0 (func c (snd k)) = Some (r1, s1)"
          by (cases "run_prog n reg refs ?s0 (func c (snd k))") auto
        show ?thesis
        proof (cases r1)
          case (Inl e)
          with run r1 have "r = Inl e" "s' = s1" by simp_all
          with miss fresh cell True r1 Inl failed show ?thesis by blast
        next
          case (Inr v)
          with run r1 have "r = Inr v"
            "s' = s1\<lparr>in_progress := tl (in_progress s1), cache := (cache s1)(k \<mapsto> v)\<rparr>"
            by simp_all
          with miss fresh cell True r1 Inr computed show ?thesis by blast
        qed
      qed
    qed
  qed
qed

lemma run_prog_SucE:
  assumes "run_prog (Suc n) reg refs s p = Some (r, s')"
  obtains (ret) v where "p = Return v" "r = Inr v" "s' = s"
  | (raise) e where "p = Raise e" "r = Inl e" "s' = s"
  | (eval_failed) k cont e where "p = Eval k cont" "eval_key n reg refs s k = Some (Inl e, s')" "r = Inl e"
  | (eval_ok) k cont v s1 where "p = Eval k cont" "eval_key n reg refs s k = Some (Inr v, s1)"
      "run_prog n reg refs s1 (cont v) = Some (r, s')"
  | (ref_missing) name cont where "p = Ref name cont" "refs name = None"
      "r = Inl (ReferenceNotFoundError name)" "s' = s"
  | (ref_ok) name cont v where "p = Ref name cont" "refs name = Some v"
      "run_prog n reg refs s (cont v) = Some (r, s')"
proof (cases p)
  case (Return v)
  with assms have "r = Inr v" "s' = s" by simp_all
  with Return ret show ?thesis by blast
next
  case (Raise e)
  with assms have "r = Inl e" "s' = s" by simp_all
  with Raise raise show ?thesis by blast
next
  case (Eval k cont)
  with assms have run: "(case eval_key n reg refs s k of
        None \<Rightarrow> None
      | Some (Inl e, s') \<Rightarrow> Some (Inl e, s')
      | Some (Inr v, s') \<Rightarrow> run_prog n reg refs s' (cont v)) = Some (r, s')"
    by simp
  then obtain r1 s1 where r1: "eval_key n reg refs s k = Some (r1, s1)"
    by (cases "eval_key n reg refs s k") auto
  show ?thesis
  proof (cases r1)
    case (Inl e)
    with run r1 have "r = Inl e" "s' = s1" by simp_all
    with Eval r1 Inl eval_failed show ?thesis by blast
  next
    case (Inr v)
    with run r1 have "run_prog n reg refs s1 (cont v) = Some (r, s')" by simp
    with Eval r1 Inr eval_ok show ?thesis by blast
  qed
next
  case (Ref name cont)
  show ?thesis
  proof (cases "refs name")
    case None
    with assms Ref have "r = Inl (ReferenceNotFoundError name)" "s' = s" by simp_all
    with Ref None ref_missing show ?thesis by blast
  next
    case (Some v)
    with assms Ref have "run_prog n reg refs s (cont v) = Some (r, s')" by simp
    with Ref Some ref_ok show ?thesis by blast
  qed
qed

subsection \<open>The cache grows, the chain is a stack\<close>

lemma eval_frame_aux:
  "(\<forall>s k r s'. eval_key n reg refs s k = Some (r, s') \<longrightarrow>
      cache s \<subseteq>\<^sub>m cache s' \<and>
      (\<forall>v. r = Inr v \<longrightarrow> in_progress s' = in_progress s \<and> cache s' k = Some v))
   \<and> (\<forall>s p r s'. run_prog n reg refs s p = Some (r, s') \<longrightarrow>
      cache s \<subseteq>\<^sub>m cache s' \<and> (\<forall>v. r = Inr v \<longrightarrow> in_progress s' = in_progress s))"
proof (induction n)
  case 0
  show ?case by simp
next
  case (Suc n)
  have IHe: "cache s \<subseteq>\<^sub>m cache s' \<and>
      (\<forall>v. r = Inr v \<longrightarrow> in_progress s' = in_progress s \<and> cache s' k = Some v)"
    if "eval_key n reg refs s k = Some (r, s')" for s k r s'
    using Suc that by blast
  have IHr: "cache s \<subseteq>\<^sub>m cache s' \<and> (\<forall>v. r = Inr v \<longrightarrow> in_progress s' = in_progress s)"
    if "run_prog n reg refs s p = Some (r, s')" for s p r s'
    using Suc that by blast
  have E: "cache s \<subseteq>\<^sub>m cache s' \<and>
      (\<forall>v. r = Inr v \<longrightarrow> in_progress s' = in_progress s \<and> cache s' k = Some v)"
    if step: "eval_key (Suc n) reg refs s k = Some (r, s')" for s k r s'
    using step
  proof (cases rule: eval_key_SucE)
    case (failed c e)
    from IHr[OF failed(5)] failed(6) show ?thesis by simp
  next
    case (computed c v s1)
    from IHr[OF computed(5)]
    have le: "cache s \<subseteq>\<^sub>m cache s1" and ip: "in_progress s1 = k # in_progress s"
      by simp_all
    from le computed(1) have "cache s \<subseteq>\<^sub>m (cache s1)(k \<mapsto> v)"
      by (auto simp: map_le_def)
    with ip computed(6,7) show ?thesis by simp
  qed simp_all
  have R: "cache s \<subseteq>\<^sub>m cache s' \<and> (\<forall>v. r = Inr v \<longrightarrow> in_progress s' = in_progress s)"
    if step: "run_prog (Suc n) reg refs s p = Some (r, s')" for s p r s'
    using step
  proof (cases rule: run_prog_SucE)
    case (eval_failed k cont e)
    from IHe[OF eval_failed(2)] eval_failed(3) show ?thesis by simp
  next
    case (eval_ok k cont v s1)
    from IHe[OF eval_ok(2)] IHr[OF eval_ok(3)] show ?thesis
      by (auto intro: map_le_trans)
  next
    case (ref_ok name cont v)
    from IHr[OF ref_ok(3)] show ?thesis .
  qed simp_all
  from E R show ?case by blast
qed

lemma eval_key_frame:
  assumes "eval_key n reg refs s k = Some (r, s')"
  shows "cache s \<subseteq>\<^sub>m cache s'"
    and "r = Inr v \<Longrightarrow> in_progress s' = in_progress s"
    and "r = Inr v \<Longrightarrow> cache s' k = Some v"
  using eval_frame_aux[of n reg refs] assms by blast+

lemma run_prog_frame:
  assumes "run_prog n reg refs s p = Some (r, s')"
  shows "cache s \<subseteq>\<^sub>m cache s'"
    and "r = Inr v \<Longrightarrow> in_progress s' = in_progress s"
  using eval_frame_aux[of n reg refs] assms by blast+

subsection \<open>Call counts\<close>

text \<open>
  While no evaluation has failed, the function of a key was invoked once if the key is
  cached or under computation, and never otherwise.
\<close>

definition tidy :: "'v run_state \<Rightarrow> bool" where
  "tidy s = (\<forall>k. calls s k = (if k \<in> dom (cache s) \<or> k \<in> set (in_progress s) then 1 else 0))"

lemma tidy_aux:
  "(\<forall>s k r s'. eval_key n reg refs s k = Some (r, s') \<longrightarrow> tidy s \<longrightarrow> tidy s')
   \<and> (\<forall>s p r s'. run_prog n reg refs s p = Some (r, s') \<longrightarrow> tidy s \<longrightarrow> tidy s')"
proof (induction n)
  case 0
  show ?case by simp
next
  case (Suc n)
  have IHe: "tidy s'" if "eval_key n reg refs s k = Some (r, s')" "tidy s" for s k r s'
    using Suc that by blast
  have IHr: "tidy s'" if "run_prog n reg refs s p = Some (r, s')" "tidy s" for s p r s'
    using Suc that by blast
  have E: "tidy s'" if step: "eval_key (Suc n) reg refs s k = Some (r, s')" and t: "tidy s"
    for s k r s'
    using step
  proof (cases rule: eval_key_SucE)
    case (failed c e)
    let ?s0 = "s\<lparr>in_progress := k # in_progress s, calls := (calls s)(k := Suc (calls s k))\<rparr>"
    from t failed(1,2) have "tidy ?s0" by (auto simp: tidy_def dom_def)
    with failed(5) show ?thesis by (rule IHr)
  next
    case (computed c v s1)
    let ?s0 = "s\<lparr>in_progress := k # in_progress s, calls := (calls s)(k := Suc (calls s k))\<rparr>"
    from t computed(1,2) have "tidy ?s0" by (auto simp: tidy_def dom_def)
    with computed(5) have t1: "tidy s1" by (rule IHr)
    from run_prog_frame(2)[OF computed(5)] have ip: "in_progress s1 = k # in_progress s"
      by simp
    from t1 ip computed(7) show ?thesis by (auto simp: tidy_def)
  qed (use t in simp_all)
  have R: "tidy s'" if step: "run_prog (Suc n) reg refs s p = Some (r, s')" and t: "tidy s"
    for s p r s'
    using step
  proof (cases rule: run_prog_SucE)
    case (eval_failed k cont e)
    from eval_failed(2) t show ?thesis by (rule IHe)
  next
    case (eval_ok k cont v s1)
    from eval_ok(2) t have "tidy s1" by (rule IHe)
    with eval_ok(3) show ?thesis by (rule IHr)
  next
    case (ref_ok name cont v)
    from ref_ok(3) t show ?thesis by (rule IHr)
  qed (use t in simp_all)
  from E R show ?case by blast
qed
lemma evaluate_again:
  assumes "evaluate n reg refs s k = Some (Inr v, s')"
  shows "evaluate (Suc m) reg refs s' k = Some (Inr v, s')"
proof -
  from assms have e: "eval_key n reg refs (s\<lparr>in_progress := []\<rparr>) k = Some (Inr v, s')"
    by (simp add: evaluate_def)
  from eval_key_frame(2)[OF e] have ip: "in_progress s' = []" by simp
  from eval_key_frame(3)[OF e] have c: "cache s' k = Some v" by simp
  from ip have "s'\<lparr>in_progress := []\<rparr> = s'" by simp
  with c show ?thesis by (simp add: evaluate_def)
qed

lemma evaluate_tidy:
  assumes "evaluate n reg refs s k = Some (Inr v, s')" "tidy s" "in_progress s = []"
  shows "tidy s' \<and> in_progress s' = []"
proof -
  from assms(3) have eq: "s\<lparr>in_progress := []\<rparr> = s" by simp
  with assms(1) have e: "eval_key n reg refs s k = Some (Inr v, s')"
    by (simp add: evaluate_def)
  from tidy_aux[of n reg refs] e assms(2) have "tidy s'" by blast
  moreover from eval_key_frame(2)[OF e] assms(3) have "in_progress s' = []" by simp
  ultimately show ?thesis by simp
qed

lemma evaluate_all_tidy:
  "evaluate_all n reg refs s ks = Some (map Inr vs, s') \<Longrightarrow> tidy s \<Longrightarrow> in_progress s = [] \<Longrightarrow>
   tidy s' \<and> in_progress s' = []"
proof (induction ks arbitrary: s vs)
  case Nil
  then show ?case by simp
next
  case (Cons k ks)
  from Cons.prems(1) obtain r s1 rs1 where
    a: "evaluate n reg refs s k = Some (r, s1)" and
    b: "evaluate_all n reg refs s1 ks = Some (rs1, s')" and
    c: "map Inr vs = r # rs1"
    by (auto split: option.splits prod.splits)
  from c obtain v vs1 where v: "r = Inr v" "rs1 = map Inr vs1" by (cases vs) auto
  from evaluate_tidy[OF a[unfolded v(1)] Cons.prems(2,3)]
  have "tidy s1" "in_progress s1 = []" by simp_all
  with Cons.IH[OF b[unfolded v(2)]] show ?case by blast
qed

lemma tidy_initial: "tidy initial_state"
  by (simp add: tidy_def initial_state_def)

lemma tidy_calls: "tidy s \<Longrightarrow> calls s k \<le> 1"
  unfolding tidy_def by (erule allE[of _ k]) (simp split: if_splits)

subsection \<open>What a key denotes\<close>

text \<open>
  The value of a cell program by the registry and the references alone, with no cache:
  the meaning the cache must agree with.
\<close>

inductive yields :: "'v registry \<Rightarrow> 'v ref_store \<Rightarrow> 'v cell_prog \<Rightarrow> 'v \<Rightarrow> bool"
  for reg :: "'v registry" and refs :: "'v ref_store" where
  yields_Return: "yields reg refs (Return v) v"
| yields_Eval: "reg (fst k) = Some c \<Longrightarrow> length (snd k) = arity c \<Longrightarrow>
     yields reg refs (func c (snd k)) v \<Longrightarrow> yields reg refs (cont v) w \<Longrightarrow>
     yields reg refs (Eval k cont) w"
| yields_Ref: "refs name = Some v \<Longrightarrow> yields reg refs (cont v) w \<Longrightarrow>
     yields reg refs (Ref name cont) w"

inductive_cases yields_ReturnE: "yields reg refs (Return v) w"
inductive_cases yields_RaiseE: "yields reg refs (Raise e) w"
inductive_cases yields_EvalE: "yields reg refs (Eval k cont) w"
inductive_cases yields_RefE: "yields reg refs (Ref name cont) w"

lemma yields_deterministic:
  "yields reg refs p v \<Longrightarrow> yields reg refs p w \<Longrightarrow> v = w"
proof (induction arbitrary: w rule: yields.induct)
  case (yields_Return v)
  then show ?case by (auto elim: yields_ReturnE)
next
  case (yields_Eval k c v cont u)
  from yields_Eval.prems obtain c' v' where
    c': "reg (fst k) = Some c'" and v': "yields reg refs (func c' (snd k)) v'"
    and w: "yields reg refs (cont v') w"
    by (auto elim: yields_EvalE)
  from c' yields_Eval.hyps(1) have "c' = c" by simp
  with v' yields_Eval.IH(1) have "v = v'" by blast
  with w yields_Eval.IH(2) show ?case by blast
next
  case (yields_Ref name v cont u)
  from yields_Ref.prems obtain v' where
    v': "refs name = Some v'" and w: "yields reg refs (cont v') w"
    by (auto elim: yields_RefE)
  from v' yields_Ref.hyps(1) have "v' = v" by simp
  with w yields_Ref.IH show ?case by blast
qed

definition sound :: "'v registry \<Rightarrow> 'v ref_store \<Rightarrow> 'v run_state \<Rightarrow> bool" where
  "sound reg refs s = (\<forall>k v. cache s k = Some v \<longrightarrow> yields reg refs (Eval k Return) v)"

lemma yields_Eval_Return:
  "yields reg refs (Eval k Return) v \<Longrightarrow> yields reg refs (cont v) w \<Longrightarrow>
   yields reg refs (Eval k cont) w"
  by (erule yields_EvalE) (auto elim: yields_ReturnE intro: yields_Eval)

lemma sound_aux:
  "(\<forall>s k r s'. eval_key n reg refs s k = Some (r, s') \<longrightarrow> sound reg refs s \<longrightarrow>
      sound reg refs s' \<and> (\<forall>v. r = Inr v \<longrightarrow> yields reg refs (Eval k Return) v))
   \<and> (\<forall>s p r s'. run_prog n reg refs s p = Some (r, s') \<longrightarrow> sound reg refs s \<longrightarrow>
      sound reg refs s' \<and> (\<forall>v. r = Inr v \<longrightarrow> yields reg refs p v))"
proof (induction n)
  case 0
  show ?case by simp
next
  case (Suc n)
  have IHe: "sound reg refs s' \<and> (\<forall>v. r = Inr v \<longrightarrow> yields reg refs (Eval k Return) v)"
    if "eval_key n reg refs s k = Some (r, s')" "sound reg refs s" for s k r s'
    using Suc that by blast
  have IHr: "sound reg refs s' \<and> (\<forall>v. r = Inr v \<longrightarrow> yields reg refs p v)"
    if "run_prog n reg refs s p = Some (r, s')" "sound reg refs s" for s p r s'
    using Suc that by blast
  have E: "sound reg refs s' \<and> (\<forall>v. r = Inr v \<longrightarrow> yields reg refs (Eval k Return) v)"
    if step: "eval_key (Suc n) reg refs s k = Some (r, s')" and t: "sound reg refs s"
    for s k r s'
    using step
  proof (cases rule: eval_key_SucE)
    case (hit v)
    with t show ?thesis unfolding sound_def by blast
  next
    case (failed c e)
    let ?s0 = "s\<lparr>in_progress := k # in_progress s, calls := (calls s)(k := Suc (calls s k))\<rparr>"
    from t have "sound reg refs ?s0" by (simp add: sound_def)
    from IHr[OF failed(5) this] failed(6) show ?thesis by simp
  next
    case (computed c v s1)
    let ?s0 = "s\<lparr>in_progress := k # in_progress s, calls := (calls s)(k := Suc (calls s k))\<rparr>"
    from t have "sound reg refs ?s0" by (simp add: sound_def)
    from IHr[OF computed(5) this]
    have s1: "sound reg refs s1" and y: "yields reg refs (func c (snd k)) v" by simp_all
    from computed(3,4) y have yk: "yields reg refs (Eval k Return) v"
      by (auto intro: yields_Eval yields_Return)
    with s1 computed(7) have "sound reg refs s'" by (simp add: sound_def)
    with yk computed(6) show ?thesis by simp
  qed (use t in simp_all)
  have R: "sound reg refs s' \<and> (\<forall>v. r = Inr v \<longrightarrow> yields reg refs p v)"
    if step: "run_prog (Suc n) reg refs s p = Some (r, s')" and t: "sound reg refs s"
    for s p r s'
    using step
  proof (cases rule: run_prog_SucE)
    case (ret v)
    with t show ?thesis by (simp add: yields_Return)
  next
    case (eval_failed k cont e)
    from IHe[OF eval_failed(2) t] eval_failed(3) show ?thesis by simp
  next
    case (eval_ok k cont v s1)
    from IHe[OF eval_ok(2) t]
    have s1: "sound reg refs s1" and y: "yields reg refs (Eval k Return) v" by simp_all
    from IHr[OF eval_ok(3) s1] y eval_ok(1) show ?thesis
      by (auto intro: yields_Eval_Return)
  next
    case (ref_ok name cont v)
    from IHr[OF ref_ok(3) t] ref_ok(1,2) show ?thesis
      by (auto intro: yields_Ref)
  qed (use t in simp_all)
  from E R show ?case by blast
qed

lemma eval_key_sound:
  assumes "eval_key n reg refs s k = Some (r, s')" and "sound reg refs s"
  shows "sound reg refs s'"
  using sound_aux[of n reg refs] assms by blast

lemma evaluate_sound:
  assumes "evaluate n reg refs s k = Some (r, s')" and "sound reg refs s"
  shows "sound reg refs s'"
proof -
  from assms(2) have "sound reg refs (s\<lparr>in_progress := []\<rparr>)" by (simp add: sound_def)
  with assms(1) show ?thesis unfolding evaluate_def by (rule eval_key_sound)
qed

lemma evaluate_all_sound:
  "evaluate_all n reg refs s ks = Some (rs, s') \<Longrightarrow> sound reg refs s \<Longrightarrow> sound reg refs s'"
proof (induction ks arbitrary: s rs)
  case Nil
  then show ?case by simp
next
  case (Cons k ks)
  from Cons.prems(1) obtain r s1 rs1 where
    a: "evaluate n reg refs s k = Some (r, s1)" and
    b: "evaluate_all n reg refs s1 ks = Some (rs1, s')"
    by (auto split: option.splits prod.splits)
  from evaluate_sound[OF a Cons.prems(2)] Cons.IH[OF b] show ?case by blast
qed

lemma sound_initial: "sound reg refs initial_state"
  by (simp add: sound_def initial_state_def)

subsection \<open>The regress of \<open>count_if\<close>\<close>

text \<open>
  The requests of the scenario go \<open>(0, A), (-1, B), (-1, A), (-2, B), ...\<close>: the rank
  \<open>2t + [x = B]\<close> falls by one at each request, so no key comes twice.
\<close>

definition count_if_rank :: "int \<Rightarrow> string \<Rightarrow> int" where
  "count_if_rank t x = 2 * t + (if x = ''B'' then 1 else 0)"

definition descending :: "int run_state \<Rightarrow> int \<Rightarrow> string \<Rightarrow> bool" where
  "descending s t x = ((\<forall>j. cache s j = None) \<and>
     (\<forall>j \<in> set (in_progress s). \<exists>t' x'. j = count_if_key t' x' \<and> (x' = ''A'' \<or> x' = ''B'')
         \<and> count_if_rank t x < count_if_rank t' x'))"
lemma count_if_cell:
  "count_if_registry ''count_if'' = Some c \<Longrightarrow>
   arity c = 2 \<and>
   func c [IntArg t, StrArg ''A''] = Eval (count_if_key (t - 1) ''B'') Return \<and>
   func c [IntArg t, StrArg ''B''] = Eval (count_if_key t ''A'') (\<lambda>v. Return (v + 1))"
  by (auto simp: count_if_registry_def)

lemma count_if_registered: "\<exists>c. count_if_registry ''count_if'' = Some c"
  by (simp add: count_if_registry_def)

lemma eval_key_request_None:
  assumes "cache s k = None" "k \<notin> set (in_progress s)" "reg (fst k) = Some c"
    "length (snd k) = arity c" "func c (snd k) = Eval k' cont"
    "eval_key n reg refs (s\<lparr>in_progress := k # in_progress s,
        calls := (calls s)(k := Suc (calls s k))\<rparr>) k' = None"
  shows "eval_key (Suc (Suc n)) reg refs s k = None"
  using assms by simp


lemma descending_A:
  "descending s t ''A'' \<Longrightarrow>
   descending (s\<lparr>in_progress := count_if_key t ''A'' # in_progress s,
        calls := (calls s)(count_if_key t ''A'' := Suc (calls s (count_if_key t ''A'')))\<rparr>)
     (t - 1) ''B''"
  unfolding descending_def
proof (intro conjI ballI)
  assume a: "(\<forall>j. cache s j = None) \<and>
     (\<forall>j \<in> set (in_progress s). \<exists>t' x'. j = count_if_key t' x' \<and> (x' = ''A'' \<or> x' = ''B'')
         \<and> count_if_rank t ''A'' < count_if_rank t' x')"
  show "\<forall>j. cache (s\<lparr>in_progress := count_if_key t ''A'' # in_progress s,
        calls := (calls s)(count_if_key t ''A'' := Suc (calls s (count_if_key t ''A'')))\<rparr>) j = None"
    using a by simp
  fix j
  assume "j \<in> set (in_progress (s\<lparr>in_progress := count_if_key t ''A'' # in_progress s,
        calls := (calls s)(count_if_key t ''A'' := Suc (calls s (count_if_key t ''A'')))\<rparr>))"
  then have "j = count_if_key t ''A'' \<or> j \<in> set (in_progress s)" by simp
  then show "\<exists>t' x'. j = count_if_key t' x' \<and> (x' = ''A'' \<or> x' = ''B'')
         \<and> count_if_rank (t - 1) ''B'' < count_if_rank t' x'"
  proof
    assume "j = count_if_key t ''A''"
    then show ?thesis by (intro exI[of _ t] exI[of _ "''A''"]) (simp add: count_if_rank_def)
  next
    assume "j \<in> set (in_progress s)"
    with a obtain t' x' where "j = count_if_key t' x'" "x' = ''A'' \<or> x' = ''B''"
      "count_if_rank t ''A'' < count_if_rank t' x'" by blast
    then show ?thesis
      by (intro exI[of _ t'] exI[of _ x']) (simp add: count_if_rank_def)
  qed
qed

lemma descending_B:
  "descending s t ''B'' \<Longrightarrow>
   descending (s\<lparr>in_progress := count_if_key t ''B'' # in_progress s,
        calls := (calls s)(count_if_key t ''B'' := Suc (calls s (count_if_key t ''B'')))\<rparr>)
     t ''A''"
  unfolding descending_def
proof (intro conjI ballI)
  assume a: "(\<forall>j. cache s j = None) \<and>
     (\<forall>j \<in> set (in_progress s). \<exists>t' x'. j = count_if_key t' x' \<and> (x' = ''A'' \<or> x' = ''B'')
         \<and> count_if_rank t ''B'' < count_if_rank t' x')"
  show "\<forall>j. cache (s\<lparr>in_progress := count_if_key t ''B'' # in_progress s,
        calls := (calls s)(count_if_key t ''B'' := Suc (calls s (count_if_key t ''B'')))\<rparr>) j = None"
    using a by simp
  fix j
  assume "j \<in> set (in_progress (s\<lparr>in_progress := count_if_key t ''B'' # in_progress s,
        calls := (calls s)(count_if_key t ''B'' := Suc (calls s (count_if_key t ''B'')))\<rparr>))"
  then have "j = count_if_key t ''B'' \<or> j \<in> set (in_progress s)" by simp
  then show "\<exists>t' x'. j = count_if_key t' x' \<and> (x' = ''A'' \<or> x' = ''B'')
         \<and> count_if_rank t ''A'' < count_if_rank t' x'"
  proof
    assume "j = count_if_key t ''B''"
    then show ?thesis by (intro exI[of _ t] exI[of _ "''B''"]) (simp add: count_if_rank_def)
  next
    assume "j \<in> set (in_progress s)"
    with a obtain t' x' where "j = count_if_key t' x'" "x' = ''A'' \<or> x' = ''B''"
      "count_if_rank t ''B'' < count_if_rank t' x'" by blast
    then show ?thesis
      by (intro exI[of _ t'] exI[of _ x']) (simp add: count_if_rank_def)
  qed
qed

lemma descending_fresh:
  assumes "descending s t x"
  shows "cache s (count_if_key t x) = None" and "count_if_key t x \<notin> set (in_progress s)"
proof -
  from assms show "cache s (count_if_key t x) = None" unfolding descending_def by blast
  show "count_if_key t x \<notin> set (in_progress s)"
  proof
    assume "count_if_key t x \<in> set (in_progress s)"
    with assms obtain t' x' where "count_if_key t x = count_if_key t' x'"
      "count_if_rank t x < count_if_rank t' x'"
      unfolding descending_def by blast
    then show False by (simp add: count_if_key_def)
  qed
qed


lemma count_if_regress:
  "(x = ''A'' \<or> x = ''B'') \<Longrightarrow> descending s t x \<Longrightarrow>
   eval_key n count_if_registry refs s (count_if_key t x) = None"
proof (induction n arbitrary: s t x rule: less_induct)
  case (less n)
  obtain c where c: "count_if_registry ''count_if'' = Some c"
    using count_if_registered by blast
  note cell = count_if_cell[OF c]
  have reg: "count_if_registry (fst (count_if_key t x)) = Some c"
    "length (snd (count_if_key t x)) = arity c"
    using c cell[of t] by (simp_all add: count_if_key_def)
  note fresh = descending_fresh[OF less.prems(2)]
  show ?case
  proof (cases n)
    case 0
    then show ?thesis by simp
  next
    case (Suc n1)
    note n1 = Suc
    show ?thesis
    proof (cases n1)
      case 0
      with n1 fresh reg show ?thesis by simp
    next
      case (Suc n2)
      have lt: "n2 < n" using n1 Suc by simp
      from less.prems(1) show ?thesis
      proof
        assume A: "x = ''A''"
        have body: "func c (snd (count_if_key t x)) = Eval (count_if_key (t - 1) ''B'') Return"
          using cell[of t] A by (simp add: count_if_key_def)
        have "descending (s\<lparr>in_progress := count_if_key t x # in_progress s,
            calls := (calls s)(count_if_key t x := Suc (calls s (count_if_key t x)))\<rparr>) (t - 1) ''B''"
          using descending_A[of s t] less.prems(2) A by simp
        then have "eval_key n2 count_if_registry refs
            (s\<lparr>in_progress := count_if_key t x # in_progress s,
              calls := (calls s)(count_if_key t x := Suc (calls s (count_if_key t x)))\<rparr>)
            (count_if_key (t - 1) ''B'') = None"
          using less.IH[OF lt] by blast
        from eval_key_request_None[OF fresh reg body this] show ?thesis
          unfolding n1 Suc .
      next
        assume B: "x = ''B''"
        have body: "func c (snd (count_if_key t x)) = Eval (count_if_key t ''A'') (\<lambda>v. Return (v + 1))"
          using cell[of t] B by (simp add: count_if_key_def)
        have "descending (s\<lparr>in_progress := count_if_key t x # in_progress s,
            calls := (calls s)(count_if_key t x := Suc (calls s (count_if_key t x)))\<rparr>) t ''A''"
          using descending_B[of s t] less.prems(2) B by simp
        then have "eval_key n2 count_if_registry refs
            (s\<lparr>in_progress := count_if_key t x # in_progress s,
              calls := (calls s)(count_if_key t x := Suc (calls s (count_if_key t x)))\<rparr>)
            (count_if_key t ''A'') = None"
          using less.IH[OF lt] by blast
        from eval_key_request_None[OF fresh reg body this] show ?thesis
          unfolding n1 Suc .
      qed
    qed
  qed
qed

lemma count_if_never_returns:
  "evaluate n count_if_registry refs initial_state (count_if_key 0 ''A'') = None"
  unfolding evaluate_def
  by (rule count_if_regress) (simp_all add: descending_def initial_state_def)

subsection \<open>Cycles, memoization, determinism\<close>

lemma balance_run:
  "evaluate 12 balance_registry Map.empty initial_state (''balance'', [IntArg 3])
     = Some (Inr 130, balance_after)"
proof -
  have "\<exists>s. evaluate 12 balance_registry Map.empty initial_state (''balance'', [IntArg 3])
     = Some (Inr 130, s)"
    by (simp add: evaluate_def balance_registry_def initial_state_def eval_nat_numeral)
  then show ?thesis by (auto simp: balance_after_def)
qed

text \<open>
  Claim C3, as amended. In the scenario \<open>evaluate("balance", 3)\<close> returns \<open>130\<close> and
  \<open>evaluate("balance", 0)\<close> afterwards returns the cached \<open>100\<close>, with \<open>initial()\<close>
  invoked once. In general, once \<open>evaluate\<close> has returned a value for a key, evaluating
  the key again returns that value and leaves the state, call counts included, as it is;
  and in a run from the empty cache in which every request returns a value, the function
  of each key is invoked at most once.
\<close>

theorem memoization:
  "map_option (\<lambda>(rs, s). (rs, calls s (''initial'', [])))
     (evaluate_all 12 balance_registry Map.empty initial_state
        [(''balance'', [IntArg 3]), (''balance'', [IntArg 0])])
     = Some ([Inr 130, Inr 100], 1)
   \<and> (evaluate n reg refs s k = Some (Inr v, s') \<longrightarrow>
        evaluate (Suc m) reg refs s' k = Some (Inr v, s'))
   \<and> (evaluate_all n' reg' refs' initial_state ks = Some (map Inr vs, s'') \<longrightarrow>
        calls s'' k' \<le> 1)"
proof (intro conjI impI)
  show "map_option (\<lambda>(rs, s). (rs, calls s (''initial'', [])))
     (evaluate_all 12 balance_registry Map.empty initial_state
        [(''balance'', [IntArg 3]), (''balance'', [IntArg 0])])
     = Some ([Inr 130, Inr 100], 1)"
    by (simp add: evaluate_def balance_registry_def initial_state_def eval_nat_numeral)
next
  assume "evaluate n reg refs s k = Some (Inr v, s')"
  then show "evaluate (Suc m) reg refs s' k = Some (Inr v, s')"
    by (rule evaluate_again)
next
  assume "evaluate_all n' reg' refs' initial_state ks = Some (map Inr vs, s'')"
  from evaluate_all_tidy[OF this tidy_initial] have "tidy s''"
    by (simp add: initial_state_def)
  then show "calls s'' k' \<le> 1" by (rule tidy_calls)
qed

theorem memoization_witness:
  "evaluate 1 balance_registry Map.empty balance_after (''balance'', [IntArg 3])
     = Some (Inr 130, balance_after)
   \<and> calls balance_after (''initial'', []) \<le> 1"
proof -
  note run = balance_run
  have all: "evaluate_all 12 balance_registry Map.empty initial_state [(''balance'', [IntArg 3])]
      = Some (map Inr [130], balance_after)"
    by (simp add: run)
  from memoization[of 12 balance_registry Map.empty initial_state "(''balance'', [IntArg 3])"
      130 balance_after 0 12 balance_registry Map.empty "[(''balance'', [IntArg 3])]" "[130]"
      balance_after "(''initial'', [])"] run all
  show ?thesis by simp
qed

text \<open>
  The claim as stated fails where an evaluation fails: a failed key leaves no cache
  entry, so the second request invokes the function again.
\<close>

theorem memoization_counterexample:
  "map_option (\<lambda>(rs, s). (rs, calls s (''rate'', [])))
     (evaluate_all 3 broken_registry Map.empty initial_state [(''rate'', []), (''rate'', [])])
   = Some ([Inl (ReferenceNotFoundError ''rate_table''),
            Inl (ReferenceNotFoundError ''rate_table'')], 2)"
  by (simp add: evaluate_def broken_registry_def initial_state_def eval_nat_numeral)

text \<open>
  Claim C2, as amended. A key requested while it is in progress (and not cached) fails
  with \<open>CircularEvaluationError\<close> naming the chain; the two \<open>count_if\<close> cells with \<open>"A"\<close>
  referring to \<open>"B"\<close> at the same \<open>t\<close> fail so. The cells of the scenario as written
  (\<open>"A"\<close> referring to \<open>"B"\<close> at \<open>t - 1\<close>) never request a key twice: evaluating
  \<open>count_if(0, "A")\<close> raises no error and returns at no depth. With the base case
  \<open>count_if(0, "A") = 0\<close> the same recursion to other argument tuples returns a value.
\<close>

theorem circular_evaluation:
  assumes "cache s k = None" and "k \<in> set (in_progress s)"
  shows "eval_key (Suc n) reg refs s k
           = Some (Inl (CircularEvaluationError (rev (k # in_progress s))), s)
       \<and> map_option fst (evaluate 9 count_if_same_t_registry Map.empty initial_state
             (count_if_key 0 ''A''))
           = Some (Inl (CircularEvaluationError
               [count_if_key 0 ''A'', count_if_key 0 ''B'', count_if_key 0 ''A'']))
       \<and> evaluate m count_if_registry refs' initial_state (count_if_key 0 ''A'') = None
       \<and> map_option fst (evaluate 12 count_if_grounded_registry Map.empty initial_state
             (count_if_key 2 ''B'')) = Some (Inr 3)"
proof (intro conjI)
  from assms show "eval_key (Suc n) reg refs s k
           = Some (Inl (CircularEvaluationError (rev (k # in_progress s))), s)"
    by simp
next
  show "map_option fst (evaluate 9 count_if_same_t_registry Map.empty initial_state
             (count_if_key 0 ''A''))
           = Some (Inl (CircularEvaluationError
               [count_if_key 0 ''A'', count_if_key 0 ''B'', count_if_key 0 ''A'']))"
    by (simp add: evaluate_def count_if_same_t_registry_def initial_state_def
        count_if_key_def eval_nat_numeral)
next
  show "evaluate m count_if_registry refs' initial_state (count_if_key 0 ''A'') = None"
    by (rule count_if_never_returns)
next
  show "map_option fst (evaluate 12 count_if_grounded_registry Map.empty initial_state
             (count_if_key 2 ''B'')) = Some (Inr 3)"
    by (simp add: evaluate_def count_if_grounded_registry_def initial_state_def
        count_if_key_def eval_nat_numeral)
qed

theorem circular_evaluation_witness:
  "eval_key 1 count_if_registry Map.empty
       (initial_state\<lparr>in_progress := [count_if_key 0 ''A'']\<rparr>) (count_if_key 0 ''A'')
     = Some (Inl (CircularEvaluationError [count_if_key 0 ''A'', count_if_key 0 ''A'']),
             initial_state\<lparr>in_progress := [count_if_key 0 ''A'']\<rparr>)"
proof -
  have a: "cache (initial_state\<lparr>in_progress := [count_if_key 0 ''A'']\<rparr> :: int run_state)
      (count_if_key 0 ''A'') = None"
    by (simp add: initial_state_def)
  have b: "count_if_key 0 ''A''
      \<in> set (in_progress (initial_state\<lparr>in_progress := [count_if_key 0 ''A'']\<rparr> :: int run_state))"
    by simp
  from circular_evaluation[OF a b, of 0 count_if_registry Map.empty] show ?thesis by simp
qed

text \<open>
  The scenario of the claim as stated: no depth makes \<open>evaluate("count_if", 0, "A")\<close>
  raise \<open>CircularEvaluationError\<close>, or any error, or return.
\<close>

theorem circular_evaluation_counterexample:
  "\<not> (\<exists>n out. evaluate n count_if_registry Map.empty initial_state (count_if_key 0 ''A'')
        = Some out)"
  by (simp add: count_if_never_returns)

text \<open>
  Claim C7. Two runs with the same registry and the same references agree on every key
  both have cached, whatever was requested, in whatever order and to whatever depth.
\<close>

theorem cached_values_deterministic:
  assumes "evaluate_all n1 reg refs initial_state ks1 = Some (rs1, s1)"
    and "evaluate_all n2 reg refs initial_state ks2 = Some (rs2, s2)"
    and "cache s1 k = Some v1" and "cache s2 k = Some v2"
  shows "v1 = v2"
proof -
  from evaluate_all_sound[OF assms(1) sound_initial] assms(3)
  have "yields reg refs (Eval k Return) v1" unfolding sound_def by blast
  moreover from evaluate_all_sound[OF assms(2) sound_initial] assms(4)
  have "yields reg refs (Eval k Return) v2" unfolding sound_def by blast
  ultimately show ?thesis by (rule yields_deterministic)
qed

theorem cached_values_deterministic_witness:
  "\<exists>rs1 s1 rs2 s2.
     evaluate_all 12 balance_registry Map.empty initial_state [(''balance'', [IntArg 3])]
       = Some (rs1, s1)
   \<and> evaluate_all 9 balance_registry Map.empty initial_state
         [(''deposit'', [IntArg 2]), (''balance'', [IntArg 1])] = Some (rs2, s2)
   \<and> cache s1 (''balance'', [IntArg 1]) = Some 110
   \<and> cache s2 (''balance'', [IntArg 1]) = Some 110"
proof -
  obtain rs1 s1 where r1:
    "evaluate_all 12 balance_registry Map.empty initial_state [(''balance'', [IntArg 3])]
       = Some (rs1, s1)" and c1: "cache s1 (''balance'', [IntArg 1]) = Some 110"
    by (simp add: evaluate_def balance_registry_def initial_state_def eval_nat_numeral)
  obtain rs2 s2 v2 where r2:
    "evaluate_all 9 balance_registry Map.empty initial_state
         [(''deposit'', [IntArg 2]), (''balance'', [IntArg 1])] = Some (rs2, s2)"
    and c2: "cache s2 (''balance'', [IntArg 1]) = Some v2"
    by (simp add: evaluate_def balance_registry_def initial_state_def eval_nat_numeral)
  from cached_values_deterministic[OF r1 r2 c1 c2] have "v2 = 110" by simp
  with r1 r2 c1 c2 show ?thesis by blast
qed

end
